theory Spec2Isabelle
  imports Complex_Main "HOL-Library.Word"
begin

unbundle bit_operations_syntax

section \<open>Strings\<close>

text \<open>
  A JavaScript string is a sequence of UTF-16 code units. The model uses \<open>string\<close>, whose
  characters are the code units 0..255 (the Latin-1 range); \<open>of_char\<close> is \<open>charCodeAt\<close>.
  On that range \<open>toLowerCase\<close> keeps the length of a string.
\<close>

definition charCode :: "char \<Rightarrow> nat" where
  "charCode c = of_char c"

text \<open>White space of \<open>String.prototype.trim\<close> and of the regular expression class \<open>\\s\<close>:
  TAB, LF, VT, FF, CR, SPACE and NBSP are the members below 256.\<close>

definition isSpace :: "char \<Rightarrow> bool" where
  "isSpace c = (charCode c \<in> {9, 10, 11, 12, 13, 32, 160})"

text \<open>An empty string, or one of white space only.\<close>

definition blank :: "string \<Rightarrow> bool" where
  "blank s = list_all isSpace s"

text \<open>The regular expression class \<open>\\d\<close>.\<close>

definition isDigit :: "char \<Rightarrow> bool" where
  "isDigit c = (48 \<le> charCode c \<and> charCode c \<le> 57)"

text \<open>\<open>toLowerCase\<close> on one code unit: A-Z and the capital letters U+00C0..U+00DE
  (U+00D7, the multiplication sign, is no letter) move up by 32.\<close>

definition toLowerChar :: "char \<Rightarrow> char" where
  "toLowerChar c =
     (let n = charCode c in
      if (65 \<le> n \<and> n \<le> 90) \<or> (192 \<le> n \<and> n \<le> 222 \<and> n \<noteq> 215)
      then char_of (n + 32) else c)"

definition toLowerCase :: "string \<Rightarrow> string" where
  "toLowerCase s = map toLowerChar s"

definition trim :: "string \<Rightarrow> string" where
  "trim s = rev (dropWhile isSpace (rev (dropWhile isSpace s)))"

definition startsWith :: "string \<Rightarrow> string \<Rightarrow> bool" where
  "startsWith s p = (take (length p) s = p)"

text \<open>\<open>s.substring(n)\<close> for \<open>n \<ge> 0\<close>.\<close>

definition substring :: "string \<Rightarrow> nat \<Rightarrow> string" where
  "substring s n = drop n s"

fun includesStr :: "string \<Rightarrow> string \<Rightarrow> bool" where
  "includesStr [] p = (p = [])"
| "includesStr (c # cs) p = (startsWith (c # cs) p \<or> includesStr cs p)"

text \<open>\<open>s.split(sep)\<close> for a non-empty separator string: the pieces between the
  occurrences of \<open>sep\<close>, found from the left, without overlap. \<open>cur\<close> is the piece read
  so far.\<close>

fun splitOn :: "string \<Rightarrow> string \<Rightarrow> string \<Rightarrow> string list" where
  "splitOn sep cur [] = [cur]"
| "splitOn sep cur (c # cs) =
     (if startsWith (c # cs) sep then cur # splitOn sep [] (drop (length sep - 1) cs)
      else splitOn sep (cur @ [c]) cs)"

definition splitStr :: "string \<Rightarrow> string \<Rightarrow> string list" where
  "splitStr s sep = splitOn sep [] s"

text \<open>\<open>s.split(/\\s+/)\<close>: the pieces between the maximal runs of white space; a run at
  either end leaves an empty piece there.\<close>

function splitWs :: "string \<Rightarrow> string \<Rightarrow> string list" where
  "splitWs cur [] = [cur]"
| "splitWs cur (c # cs) =
     (if isSpace c then cur # splitWs [] (dropWhile isSpace cs)
      else splitWs (cur @ [c]) cs)"
  by pat_completeness auto
termination
  by (relation "measure (\<lambda>(cur, s). length s)")
     (auto simp: le_imp_less_Suc length_dropWhile_le)

text \<open>\<open>parseInt\<close> on a string of decimal digits.\<close>

definition digitVal :: "char \<Rightarrow> nat" where
  "digitVal c = charCode c - 48"

definition parseInt :: "string \<Rightarrow> nat" where
  "parseInt ds = foldl (\<lambda>n c. 10 * n + digitVal c) 0 ds"

section \<open>The regular expression \<open>/top\\s+(\\d+)/i\<close>\<close>

text \<open>
  A match at the head of a string: the letters t, o, p in either case, at least one white
  space character, at least one digit. Both repetitions are greedy, and since no
  character is white space and a digit, backtracking finds nothing that the greedy
  reading misses. The result is the digits (group 1) and the text after the match.
\<close>

definition matchTopAt :: "string \<Rightarrow> (string \<times> string) option" where
  "matchTopAt s =
     (case s of
        t # opn # p # r \<Rightarrow>
          (if toLowerChar t = CHR ''t'' \<and> toLowerChar opn = CHR ''o'' \<and> toLowerChar p = CHR ''p''
           then
             (let ws = takeWhile isSpace r; r' = dropWhile isSpace r;
                  ds = takeWhile isDigit r'; rest = dropWhile isDigit r'
              in if ws \<noteq> [] \<and> ds \<noteq> [] then Some (ds, rest) else None)
           else None)
      | _ \<Rightarrow> None)"

text \<open>The leftmost match: the text before it, the digits, the text after it.\<close>

fun matchTop :: "string \<Rightarrow> (string \<times> string \<times> string) option" where
  "matchTop [] = None"
| "matchTop (c # cs) =
     (case matchTopAt (c # cs) of
        Some (ds, rest) \<Rightarrow> Some ([], ds, rest)
      | None \<Rightarrow>
          (case matchTop cs of
             Some (pre, ds, rest) \<Rightarrow> Some (c # pre, ds, rest)
           | None \<Rightarrow> None))"

section \<open>Numbers\<close>

text \<open>
  A JavaScript number is an IEEE 754 double: a finite value, an infinity or NaN. \<open>Fin r\<close>
  is the finite double with the real value \<open>r\<close>; the two zeros, which \<open>===\<close> does not tell
  apart, are both \<open>Fin 0\<close>.
\<close>

datatype number = Fin real | PosInf | NegInf | NaN

text \<open>Rounding to the nearest integer, a tie to the even one.\<close>

definition roundEven :: "real \<Rightarrow> int" where
  "roundEven y =
     (let f = \<lfloor>y\<rfloor>; d = y - of_int f in
      if d < 1 / 2 then f else if 1 / 2 < d then f + 1 else if even f then f else f + 1)"

text \<open>The binary exponent of a non-zero real: \<open>2 ^ e \<le> |x| < 2 ^ (e + 1)\<close>.\<close>

definition expo :: "real \<Rightarrow> int" where
  "expo x = \<lfloor>log 2 \<bar>x\<bar>\<rfloor>"

text \<open>
  The double nearest to a real (round to nearest, ties to even): 53 significant bits,
  the exponent not below -1022 (below it the doubles are the multiples of \<open>2 ^ -1074\<close>),
  and an infinity when the rounded value reaches \<open>2 ^ 1024\<close>.
\<close>

definition toDouble :: "real \<Rightarrow> number" where
  "toDouble x =
     (if x = 0 then Fin 0
      else
        (let e = max (expo x) (- 1022);
             u = 2 powr (of_int e - 52);
             r = of_int (roundEven (x / u)) * u
         in if 2 ^ 1024 \<le> \<bar>r\<bar> then (if 0 < x then PosInf else NegInf) else Fin r))"

text \<open>The sign of a number that is not NaN.\<close>

definition signOf :: "number \<Rightarrow> int" where
  "signOf x =
     (case x of Fin a \<Rightarrow> (if 0 < a then 1 else if a < 0 then - 1 else 0)
      | PosInf \<Rightarrow> 1 | NegInf \<Rightarrow> - 1 | NaN \<Rightarrow> 0)"

text \<open>
  The operations \<open>+\<close>, \<open>*\<close>, \<open>/\<close> and \<open>Math.sqrt\<close> on doubles: the exact result, rounded
  (for \<open>Math.sqrt\<close> as the engine computes it); NaN for an undefined result. A zero
  divisor is taken as \<open>+0\<close>.
\<close>

fun fadd :: "number \<Rightarrow> number \<Rightarrow> number" where
  "fadd (Fin a) (Fin b) = toDouble (a + b)"
| "fadd NaN y = NaN"
| "fadd x NaN = NaN"
| "fadd PosInf NegInf = NaN"
| "fadd NegInf PosInf = NaN"
| "fadd PosInf y = PosInf"
| "fadd x PosInf = PosInf"
| "fadd NegInf y = NegInf"
| "fadd x NegInf = NegInf"

fun fmul :: "number \<Rightarrow> number \<Rightarrow> number" where
  "fmul (Fin a) (Fin b) = toDouble (a * b)"
| "fmul NaN y = NaN"
| "fmul x NaN = NaN"
| "fmul x y =
     (if signOf x * signOf y = 0 then NaN
      else if 0 < signOf x * signOf y then PosInf else NegInf)"

fun fdiv :: "number \<Rightarrow> number \<Rightarrow> number" where
  "fdiv (Fin a) (Fin b) =
     (if b = 0 then (if a = 0 then NaN else if 0 < a then PosInf else NegInf)
      else toDouble (a / b))"
| "fdiv NaN y = NaN"
| "fdiv x NaN = NaN"
| "fdiv (Fin a) y = Fin 0"
| "fdiv x (Fin b) = (if (0 < signOf x) = (0 \<le> b) then PosInf else NegInf)"
| "fdiv x y = NaN"

fun fsqrt :: "number \<Rightarrow> number" where
  "fsqrt (Fin a) = (if a < 0 then NaN else toDouble (sqrt a))"
| "fsqrt PosInf = PosInf"
| "fsqrt NegInf = NaN"
| "fsqrt NaN = NaN"

text \<open>
  The arithmetic a function computes with: the constant 0, the test \<open>x === 0\<close>, the
  three operations and the square root. \<open>ieee\<close> is the arithmetic of the program;
  \<open>exact\<close> is the arithmetic of the reals, the same operations without rounding.
\<close>

record 'a arithmetic =
  num_zero :: 'a
  num_is_zero :: "'a \<Rightarrow> bool"
  num_add :: "'a \<Rightarrow> 'a \<Rightarrow> 'a"
  num_mul :: "'a \<Rightarrow> 'a \<Rightarrow> 'a"
  num_div :: "'a \<Rightarrow> 'a \<Rightarrow> 'a"
  num_sqrt :: "'a \<Rightarrow> 'a"

definition ieee :: "number arithmetic" where
  "ieee = \<lparr>num_zero = Fin 0, num_is_zero = (\<lambda>x. x = Fin 0), num_add = fadd, num_mul = fmul,
           num_div = fdiv, num_sqrt = fsqrt\<rparr>"

definition exact :: "real arithmetic" where
  "exact = \<lparr>num_zero = 0, num_is_zero = (\<lambda>x. x = 0), num_add = (+), num_mul = (*),
            num_div = (/), num_sqrt = sqrt\<rparr>"

section \<open>Cosine similarity\<close>

text \<open>
  A vector is the list of its entries; \<open>None\<close> is a \<open>null\<close> or \<open>undefined\<close> argument.
  The body of \<open>cosineSimilarity\<close> is written once, over an arithmetic.
\<close>

type_synonym vec = "real list"

text \<open>The loop of \<open>cosineSimilarity\<close>: one step adds the products at index \<open>i\<close> to
  \<open>dotProduct\<close>, \<open>norm1\<close> and \<open>norm2\<close>.\<close>

definition cosineStep :: "'a arithmetic \<Rightarrow> 'a list \<Rightarrow> 'a list \<Rightarrow> 'a \<times> 'a \<times> 'a \<Rightarrow> nat \<Rightarrow> 'a \<times> 'a \<times> 'a" where
  "cosineStep A e1 e2 acc i =
     (case acc of (dotProduct, norm1, norm2) \<Rightarrow>
        (num_add A dotProduct (num_mul A (e1 ! i) (e2 ! i)),
         num_add A norm1 (num_mul A (e1 ! i) (e1 ! i)),
         num_add A norm2 (num_mul A (e2 ! i) (e2 ! i))))"

definition cosineWith :: "'a arithmetic \<Rightarrow> 'a list option \<Rightarrow> 'a list option \<Rightarrow> 'a" where
  "cosineWith A embedding1 embedding2 =
     (case embedding1 of
        None \<Rightarrow> num_zero A
      | Some e1 \<Rightarrow>
          (case embedding2 of
             None \<Rightarrow> num_zero A
           | Some e2 \<Rightarrow>
               if length e1 = length e2 then
                 (case foldl (cosineStep A e1 e2) (num_zero A, num_zero A, num_zero A)
                         [0..<length e1] of
                    (dotProduct, norm1, norm2) \<Rightarrow>
                      if num_is_zero A norm1 \<or> num_is_zero A norm2 then num_zero A
                      else num_div A dotProduct (num_mul A (num_sqrt A norm1) (num_sqrt A norm2)))
               else num_zero A))"

text \<open>\<open>cosineSimilarity\<close> as the program runs it, on doubles.\<close>

definition cosineSimilarity :: "number list option \<Rightarrow> number list option \<Rightarrow> number" where
  "cosineSimilarity = cosineWith ieee"

text \<open>The same body in exact arithmetic. The model of the scorer below computes in exact
  real arithmetic throughout (rounding, overflow and NaN are outside it) and uses this
  one.\<close>

definition cosineExact :: "vec option \<Rightarrow> vec option \<Rightarrow> real" where
  "cosineExact = cosineWith exact"

text \<open>The value of \<open>norm1\<close> after the loop: the squared norm of the first vector, as the
  arithmetic computes it.\<close>

definition squaredNorm :: "'a arithmetic \<Rightarrow> 'a list \<Rightarrow> 'a" where
  "squaredNorm A v = foldl (\<lambda>acc x. num_add A acc (num_mul A x x)) (num_zero A) v"

section \<open>The attention ranker\<close>

text \<open>
  The embeddings, scores and weights of the program are \<open>Float32Array\<close> entries and
  doubles. This model of the ranker computes them in exact real arithmetic: rounding,
  overflow and NaN are outside it.
\<close>

definition vocabSize :: nat where
  "vocabSize = 8192"

definition embedDim :: nat where
  "embedDim = 128"

definition scale :: real where
  "scale = sqrt (real embedDim)"

text \<open>FNV-1a on the code units, in 32 bits: \<open>Math.imul\<close> is the wrapping product.\<close>

definition hash32 :: "string \<Rightarrow> 32 word" where
  "hash32 str = foldl (\<lambda>h c. (h XOR of_nat (charCode c)) * 16777619) 2166136261 str"

definition tokenIdFor :: "string \<Rightarrow> nat" where
  "tokenIdFor word = unat (hash32 word mod of_nat vocabSize)"

definition xorshift32 :: "32 word \<Rightarrow> 32 word" where
  "xorshift32 x =
     (let a = x XOR push_bit 13 x;
          b = a XOR drop_bit 17 a
      in b XOR push_bit 5 b)"

text \<open>The loop of \<open>embeddingForTokenId\<close>: \<open>n\<close> entries from the generator state \<open>x\<close>.\<close>

fun embeddingFrom :: "nat \<Rightarrow> 32 word \<Rightarrow> vec" where
  "embeddingFrom 0 x = []"
| "embeddingFrom (Suc n) x =
     (let x' = xorshift32 x
      in (real (unat (x' AND 0xffff)) / 65535 * 0.2 - 0.1) # embeddingFrom n x')"

definition embeddingForTokenId :: "nat \<Rightarrow> vec" where
  "embeddingForTokenId tokenId = embeddingFrom embedDim (of_nat (tokenId + 1))"

definition tokenize :: "string \<Rightarrow> string list" where
  "tokenize txt = filter (\<lambda>w. w \<noteq> []) (splitWs [] (toLowerCase txt))"

definition meanEmbeddingForText :: "string \<Rightarrow> vec" where
  "meanEmbeddingForText txt =
     (let words = tokenize txt in
      if words = [] then replicate embedDim 0
      else
        (let acc = foldl (\<lambda>acc w. map2 (+) acc (embeddingForTokenId (tokenIdFor w)))
                     (replicate embedDim 0) words
         in map (\<lambda>a. a / real (length words)) acc))"

text \<open>The inner loop of \<open>attentionScore\<close>: the dot product of a token's embedding with the
  first \<open>embedDim\<close> entries of the query vector. Every query vector of the program comes
  from \<open>buildQueryVector\<close> and has \<open>embedDim\<close> entries.\<close>

definition dotQuery :: "vec \<Rightarrow> vec \<Rightarrow> real" where
  "dotQuery e queryVec = (\<Sum>j\<leftarrow>[0..<embedDim]. e ! j * queryVec ! j)"

text \<open>The running maximum of the scores. The source starts at \<open>-Infinity\<close>, which the
  first score replaces; the function is only used on a non-empty sequence.\<close>

definition maxScore :: "real list \<Rightarrow> real" where
  "maxScore scores = foldl max (hd scores) (tl scores)"

text \<open>One step of the context loop: \<open>ctx[j] += e[j] * w\<close> for every \<open>j\<close>.\<close>

definition ctxStep :: "vec \<Rightarrow> real \<times> vec \<Rightarrow> vec" where
  "ctxStep ctx we = (case we of (w, e) \<Rightarrow> map2 (\<lambda>c x. c + x * w) ctx e)"

text \<open>The softmax lines of \<open>attentionScore\<close>: the exponentials of the scores less their
  maximum, each divided by \<open>sum || 1\<close>.\<close>

definition softmaxWeights :: "real list \<Rightarrow> real list" where
  "softmaxWeights scores =
     (let mx = maxScore scores;
          exps = map (\<lambda>s. exp (s - mx)) scores;
          total = sum_list exps
      in map (\<lambda>x. x / (if total = 0 then 1 else total)) exps)"

record attention =
  score :: real
  weights :: "real list"

definition attentionScore :: "string \<Rightarrow> vec \<Rightarrow> attention" where
  "attentionScore txt queryVec =
     (let words = tokenize txt in
      if words = [] then \<lparr>score = 0, weights = []\<rparr>
      else
        (let embeddings = map (\<lambda>w. embeddingForTokenId (tokenIdFor w)) words;
             scores = map (\<lambda>e. dotQuery e queryVec / scale) embeddings;
             ws = softmaxWeights scores;
             ctx = foldl ctxStep (replicate embedDim 0) (zip ws embeddings)
         in \<lparr>score = cosineExact (Some ctx) (Some queryVec), weights = ws\<rparr>))"

definition buildQueryVector :: "string \<Rightarrow> vec" where
  "buildQueryVector queryText = meanEmbeddingForText queryText"

section \<open>Command parsing\<close>

datatype Mode = Hide | Show

text \<open>The four fields that are stored, and the filter, which adds the query vector.\<close>

record filterMetadata =
  query :: string
  mode :: Mode
  topK :: nat
  threshold :: real

record filter = filterMetadata +
  queryVec :: vec

text \<open>
  \<open>parseCommand\<close> returns \<open>null\<close> (\<open>None\<close>) or a filter. \<open>topK\<close> is a natural number:
  \<open>parseInt\<close> of a digit string is exact up to \<open>2^53\<close>. The \<open>catch\<close> around
  \<open>buildQueryVector\<close> rethrows, and \<open>buildQueryVector\<close> raises nothing.
\<close>

definition parseCommand :: "string \<Rightarrow> filter option" where
  "parseCommand command =
     (let text' = trim command in
      if text' = [] then None
      else
        (let lower = toLowerCase text';
             (mode', query', topK', threshold') =
               (if startsWith lower ''hide '' then (Hide, trim (substring text' 5), 20, 0.5)
                else if startsWith lower ''remove '' then (Hide, trim (substring text' 7), 20, 0.5)
                else if startsWith lower ''show '' \<or> startsWith lower ''only '' then
                  (let q = trim (substring text' 5) in
                   case matchTop q of
                     Some (pre, ds, rest) \<Rightarrow> (Show, trim (pre @ rest), parseInt ds, 0.5)
                   | None \<Rightarrow> (Show, q, 20, 0.5))
                else if includesStr lower ''only show '' then
                  (Show, trim (splitStr lower ''only show '' ! 1), 20, 0.5)
                else (Hide, text', 20, 0.5))
         in Some \<lparr>query = query', mode = mode', topK = topK', threshold = threshold',
                  queryVec = buildQueryVector query'\<rparr>))"

section \<open>Restoring stored filters\<close>

text \<open>What \<open>addFilter\<close> and \<open>removeFilter\<close> write to the storage for one filter.\<close>

definition metadataOf :: "filter \<Rightarrow> filterMetadata" where
  "metadataOf f = \<lparr>query = query f, mode = mode f, topK = topK f, threshold = threshold f\<rparr>"

text \<open>The body of the restore loop of \<open>init\<close>: the stored query is parsed as a command,
  and \<open>topK\<close> and \<open>threshold\<close> are taken from the stored record. \<open>None\<close>: nothing is pushed.\<close>

definition restoreFilter :: "filterMetadata \<Rightarrow> filter option" where
  "restoreFilter meta =
     (case parseCommand (query meta) of
        None \<Rightarrow> None
      | Some f \<Rightarrow> Some (f\<lparr>topK := topK meta, threshold := threshold meta\<rparr>))"

definition restoreFilters :: "filterMetadata list \<Rightarrow> filter list" where
  "restoreFilters metas = List.map_filter restoreFilter metas"

section \<open>Posts, batching and ranked filtering\<close>

text \<open>A post as \<open>extractPosts\<close> delivers it (the \<open>user\<close> field is never read).\<close>

record post =
  post_id :: string
  post_text :: string

record postData =
  pd_text :: string
  hidden :: bool

text \<open>\<open>state.processedPosts\<close> is a \<open>Map\<close>: its entries in insertion order. \<open>mapSet\<close> is
  \<open>Map.prototype.set\<close>: a known key keeps its place.\<close>

type_synonym postMap = "(string \<times> postData) list"

fun mapSet :: "postMap \<Rightarrow> string \<Rightarrow> postData \<Rightarrow> postMap" where
  "mapSet [] k v = [(k, v)]"
| "mapSet ((k', v') # m) k v = (if k' = k then (k, v) # m else (k', v') # mapSet m k v)"

definition mapHas :: "postMap \<Rightarrow> string \<Rightarrow> bool" where
  "mapHas m k = (k \<in> set (map fst m))"

text \<open>The state of the content script. \<open>batchTimeout\<close> says whether a timer for
  \<open>processBatch\<close> is pending. The calls that show and hide the rendered elements act on
  the page only and are left out.\<close>

record state =
  filters :: "filter list"
  processedPosts :: postMap
  postBatch :: "post list"
  stats_processed :: nat
  stats_hidden :: nat
  enabled :: bool
  batchTimeout :: bool

definition batchSize :: nat where
  "batchSize = 30"

text \<open>An entry of \<open>similarities\<close> is the post id and the score; its \<open>postData\<close> is the
  object stored in the map under that id.\<close>

definition similaritiesOf :: "filter \<Rightarrow> postMap \<Rightarrow> (string \<times> real) list" where
  "similaritiesOf f m =
     map (\<lambda>(postId, pd). (postId, score (attentionScore (pd_text pd) (queryVec f)))) m"

text \<open>\<open>similarities.sort((a, b) => b.similarity - a.similarity)\<close>: the sort is stable, and
  descending in the score.\<close>

definition sortDescending :: "(string \<times> real) list \<Rightarrow> (string \<times> real) list" where
  "sortDescending items = sort_key (\<lambda>item. - snd item) items"

definition setHidden :: "postMap \<Rightarrow> string \<Rightarrow> bool \<Rightarrow> postMap" where
  "setHidden m k h = map (\<lambda>(k', pd). if k' = k then (k', pd\<lparr>hidden := h\<rparr>) else (k', pd)) m"

text \<open>One step of the hide loop: an item at or above the threshold has its post hidden
  (a post that is hidden already stays so).\<close>

definition hideStep :: "real \<Rightarrow> postMap \<Rightarrow> string \<times> real \<Rightarrow> postMap" where
  "hideStep t m item = (if snd item \<ge> t then setHidden m (fst item) True else m)"

text \<open>The body of the loop over the filters in \<open>applyRankedFiltering\<close>.\<close>

definition applyFilter :: "filter \<Rightarrow> postMap \<Rightarrow> postMap" where
  "applyFilter f m =
     (let similarities = sortDescending (similaritiesOf f m) in
      case mode f of
        Hide \<Rightarrow> foldl (hideStep (threshold f)) m similarities
      | Show \<Rightarrow>
          (let k = (if topK f = 0 then 20 else topK f);
               topPosts = set (map fst (take k similarities))
           in map (\<lambda>(postId, pd). (postId, pd\<lparr>hidden := (postId \<notin> topPosts)\<rparr>)) m))"

definition hiddenCount :: "postMap \<Rightarrow> nat" where
  "hiddenCount m = length (filter (\<lambda>(postId, pd). hidden pd) m)"

definition visibleCount :: "postMap \<Rightarrow> nat" where
  "visibleCount m = length (filter (\<lambda>(postId, pd). \<not> hidden pd) m)"

definition visibleIds :: "postMap \<Rightarrow> string set" where
  "visibleIds m = set (map fst (filter (\<lambda>(postId, pd). \<not> hidden pd) m))"

definition applyRankedFiltering :: "state \<Rightarrow> state" where
  "applyRankedFiltering s =
     (if filters s = [] then
        s\<lparr>processedPosts := map (\<lambda>(postId, pd). (postId, pd\<lparr>hidden := False\<rparr>)) (processedPosts s),
          stats_hidden := 0\<rparr>
      else
        (let m = foldl (\<lambda>m f. applyFilter f m) (processedPosts s) (filters s)
         in s\<lparr>processedPosts := m, stats_hidden := hiddenCount m\<rparr>))"

text \<open>The loop of \<open>processBatch\<close> over the batch.\<close>

definition cachePost :: "state \<Rightarrow> post \<Rightarrow> state" where
  "cachePost s p =
     s\<lparr>processedPosts := mapSet (processedPosts s) (post_id p) \<lparr>pd_text = post_text p, hidden = False\<rparr>,
       stats_processed := stats_processed s + 1\<rparr>"

definition processBatch :: "state \<Rightarrow> state" where
  "processBatch s =
     (if postBatch s = [] then s
      else
        (let batch = take batchSize (postBatch s);
             s1 = s\<lparr>postBatch := drop batchSize (postBatch s)\<rparr>
         in applyRankedFiltering (foldl cachePost s1 batch)))"

text \<open>\<open>processPostData\<close>, from the posts that \<open>extractPosts\<close> found in the response.\<close>

definition processPostData :: "state \<Rightarrow> post list \<Rightarrow> state" where
  "processPostData s posts =
     (if posts = [] then s
      else
        (let newPosts = filter (\<lambda>p. \<not> mapHas (processedPosts s) (post_id p)) posts in
         if newPosts = [] then s
         else
           (let s1 = s\<lparr>postBatch := postBatch s @ newPosts\<rparr> in
            if length (postBatch s1) \<ge> batchSize then processBatch s1
            else s1\<lparr>batchTimeout := True\<rparr>)))"

text \<open>The pending timer fires.\<close>

definition onBatchTimeout :: "state \<Rightarrow> state" where
  "onBatchTimeout s = processBatch (s\<lparr>batchTimeout := False\<rparr>)"

definition initialState :: state where
  "initialState =
     \<lparr>filters = [], processedPosts = [], postBatch = [], stats_processed = 0, stats_hidden = 0,
      enabled = True, batchTimeout = False\<rparr>"

text \<open>A response with \<open>n\<close> posts; their ids are the digit strings 7, 77, 777, ...\<close>

fun numberedPosts :: "nat \<Rightarrow> post list" where
  "numberedPosts 0 = []"
| "numberedPosts (Suc n) =
     numberedPosts n @ [\<lparr>post_id = replicate (Suc n) CHR ''7'', post_text = ''post''\<rparr>]"

section \<open>The scorer as the specification words it\<close>





section \<open>Strings: basic facts\<close>

lemmas string_defs =
  trim_def isSpace_def isDigit_def charCode_def toLowerCase_def toLowerChar_def
  startsWith_def substring_def splitStr_def matchTopAt_def parseInt_def digitVal_def Let_def

lemma blank_dropWhile: "blank s \<Longrightarrow> dropWhile isSpace s = []"
  by (simp add: blank_def list_all_iff)

lemma trim_eq_Nil: "trim s = [] \<longleftrightarrow> blank s"
proof
  assume "trim s = []"
  then have "dropWhile isSpace (rev (dropWhile isSpace s)) = []"
    by (simp add: trim_def)
  then have "\<forall>c\<in>set (rev (dropWhile isSpace s)). isSpace c"
    by (simp add: dropWhile_eq_Nil_conv)
  then have "dropWhile isSpace s = []"
    by (metis dropWhile_eq_Nil_conv hd_dropWhile hd_in_set set_rev)
  then show "blank s"
    by (simp add: blank_def list_all_iff dropWhile_eq_Nil_conv)
next
  assume "blank s"
  then show "trim s = []"
    by (simp add: trim_def blank_dropWhile)
qed

text \<open>Where \<open>includes\<close> holds, \<open>split\<close> has a piece at index 1.\<close>

lemma splitOn_not_Nil: "splitOn sep cur s \<noteq> []"
  by (induction sep cur s rule: splitOn.induct) simp_all

lemma splitOn_second_piece:
  "sep \<noteq> [] \<Longrightarrow> includesStr s sep \<Longrightarrow> 2 \<le> length (splitOn sep cur s)"
proof (induction s arbitrary: cur)
  case Nil
  then show ?case by simp
next
  case (Cons c cs)
  show ?case
  proof (cases "startsWith (c # cs) sep")
    case True
    have "1 \<le> length (splitOn sep [] (drop (length sep - 1) cs))"
      using splitOn_not_Nil [of sep "[]" "drop (length sep - 1) cs"]
      by (cases "splitOn sep [] (drop (length sep - 1) cs)") simp_all
    with True show ?thesis by simp
  next
    case False
    with Cons.prems have "includesStr cs sep" by simp
    with Cons.prems(1) have "2 \<le> length (splitOn sep (cur @ [c]) cs)" by (rule Cons.IH)
    with False show ?thesis by simp
  qed
qed

section \<open>Command parsing: the claims\<close>

lemma parse_hide_sports:
  "parseCommand ''hide sports'' =
     Some \<lparr>query = ''sports'', mode = Hide, topK = 20, threshold = 0.5,
           queryVec = buildQueryVector ''sports''\<rparr>"
  by (simp add: parseCommand_def string_defs)

lemma parse_show_top_10_tech:
  "parseCommand ''show top 10 tech'' =
     Some \<lparr>query = ''tech'', mode = Show, topK = 10, threshold = 0.5,
           queryVec = buildQueryVector ''tech''\<rparr>"
  by (simp add: parseCommand_def string_defs)

lemma parse_blank: "blank command \<Longrightarrow> parseCommand command = None"
  by (simp add: parseCommand_def trim_eq_Nil)

text \<open>
  Claim C3. \<open>parseCommand\<close> on "hide sports" gives mode hide, query "sports" and threshold
  0.5; on "show top 10 tech" it gives mode show, query "tech" and topK 10, the matched
  "top 10" being removed from the query; on an empty command, or one of white space only,
  it returns null.
\<close>

theorem C3_command_grammar:
  "parseCommand ''hide sports'' =
     Some \<lparr>query = ''sports'', mode = Hide, topK = 20, threshold = 0.5,
           queryVec = buildQueryVector ''sports''\<rparr>
   \<and> parseCommand ''show top 10 tech'' =
     Some \<lparr>query = ''tech'', mode = Show, topK = 10, threshold = 0.5,
           queryVec = buildQueryVector ''tech''\<rparr>
   \<and> parseCommand [] = None
   \<and> (\<forall>command. blank command \<longrightarrow> parseCommand command = None)"
  using parse_hide_sports parse_show_top_10_tech parse_blank
  by (simp add: blank_def)

theorem C3_command_grammar_witness:
  "blank [CHR '' '', CHR 0x09, CHR 0xA0] \<and> parseCommand [CHR '' '', CHR 0x09, CHR 0xA0] = None"
proof -
  have b: "blank [CHR '' '', CHR 0x09, CHR 0xA0]"
    by (simp add: blank_def isSpace_def charCode_def)
  from C3_command_grammar
  have "blank [CHR '' '', CHR 0x09, CHR 0xA0] \<longrightarrow> parseCommand [CHR '' '', CHR 0x09, CHR 0xA0] = None"
    by blast
  with b show ?thesis by simp
qed

text \<open>
  Claim C9. A command whose trimmed text is not empty, starts (lower-cased) with none of
  "hide ", "remove ", "show ", "only " and does not contain "only show " is not rejected:
  the result is a hide filter for the whole trimmed text, with threshold 0.5 and topK 20.
\<close>

theorem C9_bare_command_hides:
  assumes "\<not> blank command"
    and "\<not> startsWith (toLowerCase (trim command)) ''hide ''"
    and "\<not> startsWith (toLowerCase (trim command)) ''remove ''"
    and "\<not> startsWith (toLowerCase (trim command)) ''show ''"
    and "\<not> startsWith (toLowerCase (trim command)) ''only ''"
    and "\<not> includesStr (toLowerCase (trim command)) ''only show ''"
  shows "parseCommand command =
     Some \<lparr>query = trim command, mode = Hide, topK = 20, threshold = 0.5,
           queryVec = buildQueryVector (trim command)\<rparr>"
  using assms by (simp add: parseCommand_def trim_eq_Nil Let_def)

theorem C9_bare_command_hides_witness:
  "\<not> blank ''sports''
   \<and> \<not> startsWith (toLowerCase (trim ''sports'')) ''hide ''
   \<and> \<not> startsWith (toLowerCase (trim ''sports'')) ''remove ''
   \<and> \<not> startsWith (toLowerCase (trim ''sports'')) ''show ''
   \<and> \<not> startsWith (toLowerCase (trim ''sports'')) ''only ''
   \<and> \<not> includesStr (toLowerCase (trim ''sports'')) ''only show ''
   \<and> parseCommand ''sports'' =
     Some \<lparr>query = ''sports'', mode = Hide, topK = 20, threshold = 0.5,
           queryVec = buildQueryVector ''sports''\<rparr>"
proof -
  have t: "trim ''sports'' = ''sports''"
    by (simp add: string_defs)
  have h: "\<not> blank ''sports''"
    "\<not> startsWith (toLowerCase (trim ''sports'')) ''hide ''"
    "\<not> startsWith (toLowerCase (trim ''sports'')) ''remove ''"
    "\<not> startsWith (toLowerCase (trim ''sports'')) ''show ''"
    "\<not> startsWith (toLowerCase (trim ''sports'')) ''only ''"
    "\<not> includesStr (toLowerCase (trim ''sports'')) ''only show ''"
    by (simp_all add: blank_def string_defs)
  from C9_bare_command_hides [OF h] t h show ?thesis by simp
qed

text \<open>
  Claim C2. The command "only show ai news" starts with "only ", so the branch of the
  prefixes "show " and "only " takes it and cuts five characters: the query is
  "show ai news". The branch for "only show " is not reached.
\<close>

theorem C2_only_show_takes_prefix_branch:
  "parseCommand ''only show ai news'' =
     Some \<lparr>query = ''show ai news'', mode = Show, topK = 20, threshold = 0.5,
           queryVec = buildQueryVector ''show ai news''\<rparr>"
  by (simp add: parseCommand_def string_defs)

text \<open>
  Claim C1. The filter of the command "show tech" is stored as query "tech", mode show,
  topK 20, threshold 0.5. Restoring that record parses "tech" as a command: the restored
  filter has mode hide.
\<close>

theorem C1_restore_loses_mode:
  "map_option metadataOf (parseCommand ''show tech'') =
     Some \<lparr>query = ''tech'', mode = Show, topK = 20, threshold = 0.5\<rparr>
   \<and> map_option metadataOf
       (restoreFilter \<lparr>query = ''tech'', mode = Show, topK = 20, threshold = 0.5\<rparr>) =
     Some \<lparr>query = ''tech'', mode = Hide, topK = 20, threshold = 0.5\<rparr>"
  by (simp add: restoreFilter_def metadataOf_def parseCommand_def string_defs)

section \<open>Numbers: rounding\<close>

lemma roundEven_eqI: "\<bar>y - of_int m\<bar> < 1 / 2 \<Longrightarrow> roundEven y = m"
proof -
  assume a: "\<bar>y - of_int m\<bar> < 1 / 2"
  show ?thesis
  proof (cases "of_int m \<le> y")
    case True
    with a have f: "\<lfloor>y\<rfloor> = m" by (intro floor_unique) auto
    with a True show ?thesis by (simp add: roundEven_def Let_def)
  next
    case False
    with a have f: "\<lfloor>y\<rfloor> = m - 1" by (intro floor_unique) auto
    with a False show ?thesis by (auto simp: roundEven_def Let_def)
  qed
qed

lemma roundEven_close: "\<bar>of_int (roundEven y) - y\<bar> \<le> 1 / 2"
  unfolding roundEven_def Let_def by (auto; linarith)

lemma expo_eqI: "2 powr of_int e \<le> \<bar>x\<bar> \<Longrightarrow> \<bar>x\<bar> < 2 powr (of_int e + 1) \<Longrightarrow> expo x = e"
proof -
  assume a: "2 powr of_int e \<le> \<bar>x\<bar>" and b: "\<bar>x\<bar> < 2 powr (of_int e + 1)"
  have pos: "0 < \<bar>x\<bar>" using a by (smt (verit) powr_gt_zero)
  have "of_int e \<le> log 2 \<bar>x\<bar>" using a pos by (simp add: le_log_iff)
  moreover have "log 2 \<bar>x\<bar> < of_int e + 1" using b pos by (simp add: log_less_iff)
  ultimately show ?thesis unfolding expo_def by (intro floor_unique) auto
qed

lemma toDouble_eqI:
  assumes "2 powr of_int e \<le> \<bar>x\<bar>" and "\<bar>x\<bar> < 2 powr (of_int e + 1)" and "- 1022 \<le> e"
    and "\<bar>x / 2 powr (of_int e - 52) - of_int m\<bar> < 1 / 2"
    and "\<bar>real_of_int m * 2 powr (of_int e - 52)\<bar> < 2 ^ 1024"
  shows "toDouble x = Fin (of_int m * 2 powr (of_int e - 52))"
proof -
  have x0: "x \<noteq> 0" using assms(1) by (smt (verit) powr_gt_zero)
  have e: "expo x = e" using assms(1,2) by (rule expo_eqI)
  have m: "roundEven (x / 2 powr (of_int e - 52)) = m" using assms(4) by (rule roundEven_eqI)
  show ?thesis using x0 assms(3,5) by (simp add: toDouble_def e m Let_def max_def)
qed

lemma toDouble_0: "toDouble 0 = Fin 0"
  by (simp add: toDouble_def)

lemma toDouble_1: "toDouble 1 = Fin 1"
  using toDouble_eqI [of 0 1 "2 ^ 52"] by (simp add: powr_minus powr_numeral field_simps)

lemma toDouble_2: "toDouble 2 = Fin 2"
  using toDouble_eqI [of 1 2 "2 ^ 52"] by (simp add: powr_minus powr_numeral field_simps)

lemma toDouble_sqrt2: "toDouble (sqrt 2) = Fin (6369051672525773 / 2 ^ 52)"
proof -
  have lo: "(1::real) \<le> sqrt 2" by (simp add: real_le_rsqrt)
  have hi: "sqrt 2 < (2::real)" by (rule real_less_lsqrt) simp_all
  have g: "sqrt 2 * c = sqrt (2 * c\<^sup>2)" if "0 \<le> c" for c :: real
    using that by (simp add: real_sqrt_mult)
  have a: "sqrt 2 * 2 ^ 52 = sqrt (2 * 2 ^ 104)"
    using g [of "2 ^ 52"] by simp
  have b: "6369051672525773 - 1 / 2 < sqrt (2 * 2 ^ 104 :: real)"
    by (rule real_less_rsqrt) (simp add: power2_eq_square)
  have c: "sqrt (2 * 2 ^ 104 :: real) < 6369051672525773 + 1 / 2"
    by (rule real_less_lsqrt) (simp_all add: power2_eq_square)
  have b': "6369051672525773 - 1 / 2 < sqrt 2 * 2 ^ 52" unfolding a by (rule b)
  have c': "sqrt 2 * 2 ^ 52 < 6369051672525773 + 1 / 2" unfolding a by (rule c)
  have u: "sqrt 2 / 2 powr (of_int 0 - 52) = sqrt 2 * 2 ^ 52"
    by (simp add: powr_minus powr_numeral field_simps)
  have d: "\<bar>sqrt 2 / 2 powr (of_int 0 - 52) - of_int 6369051672525773\<bar> < 1 / 2"
    unfolding u of_int_numeral using b' c' by linarith
  from toDouble_eqI [of 0 "sqrt 2" 6369051672525773] lo hi d show ?thesis
    by (simp add: powr_minus powr_numeral field_simps)
qed

lemma toDouble_square:
  "toDouble (6369051672525773 / 2 ^ 52 * (6369051672525773 / 2 ^ 52)) = Fin (4503599627370497 / 2 ^ 51)"
  using toDouble_eqI [of 1 "6369051672525773 / 2 ^ 52 * (6369051672525773 / 2 ^ 52)" 4503599627370497]
  by (simp add: powr_minus powr_numeral field_simps abs_less_iff)

lemma toDouble_quotient:
  "toDouble (2 / (4503599627370497 / 2 ^ 51)) = Fin (9007199254740990 / 2 ^ 53)"
  using toDouble_eqI [of "- 1" "2 / (4503599627370497 / 2 ^ 51)" 9007199254740990]
  by (simp add: powr_minus powr_numeral field_simps abs_less_iff)

lemma toDouble_normal:
  assumes lo: "2 powr (- 1022) \<le> \<bar>x\<bar>" and hi: "\<bar>x\<bar> \<le> 2 powr 1023"
  shows "\<exists>r. toDouble x = Fin r \<and> \<bar>r - x\<bar> \<le> \<bar>x\<bar> / 2 ^ 53"
proof -
  have pos: "0 < \<bar>x\<bar>" using lo by (smt (verit) powr_gt_zero)
  then have x0: "x \<noteq> 0" by simp
  define e where "e = expo x"
  have e_le: "of_int e \<le> log 2 \<bar>x\<bar>" unfolding e_def expo_def by simp
  then have pe: "2 powr of_int e \<le> \<bar>x\<bar>" using pos by (simp add: le_log_iff)
  have "- 1022 \<le> log 2 \<bar>x\<bar>" using lo pos by (simp add: le_log_iff)
  then have e_lo: "- 1022 \<le> e" unfolding e_def expo_def by (simp add: le_floor_iff)
  define u :: real where "u = 2 powr (of_int e - 52)"
  have u_pos: "0 < u" unfolding u_def by simp
  have u_half: "u / 2 = 2 powr of_int e / 2 ^ 53"
    unfolding u_def by (simp add: powr_diff powr_numeral)
  define r where "r = of_int (roundEven (x / u)) * u"
  have "\<bar>r - x\<bar> = \<bar>of_int (roundEven (x / u)) - x / u\<bar> * u"
  proof -
    have "r - x = (of_int (roundEven (x / u)) - x / u) * u"
      unfolding r_def using u_pos by (simp add: field_simps)
    then show ?thesis using u_pos by (simp add: abs_mult)
  qed
  also have "\<dots> \<le> 1 / 2 * u"
    using roundEven_close [of "x / u"] u_pos by (intro mult_right_mono) simp_all
  also have "\<dots> = 2 powr of_int e / 2 ^ 53" using u_half by simp
  also have "\<dots> \<le> \<bar>x\<bar> / 2 ^ 53" using pe by (simp add: divide_right_mono)
  finally have close: "\<bar>r - x\<bar> \<le> \<bar>x\<bar> / 2 ^ 53" .
  have "\<bar>r\<bar> \<le> \<bar>x\<bar> + \<bar>x\<bar> / 2 ^ 53" using close by linarith
  also have "\<dots> \<le> 2 powr 1023 + 2 powr 1023 / 2 ^ 53"
    using hi by (intro add_mono divide_right_mono) simp_all
  also have "\<dots> < 2 ^ 1024" by (simp add: powr_numeral)
  finally have fin: "\<not> 2 ^ 1024 \<le> \<bar>r\<bar>" by simp
  have "toDouble x = Fin r"
    using x0 e_lo fin unfolding toDouble_def Let_def e_def [symmetric] max_def
    by (simp add: u_def [symmetric] r_def [symmetric])
  with close show ?thesis by blast
qed


lemma toDouble_relative:
  assumes "1 / 2 ^ 1022 \<le> x" and "x \<le> 2 ^ 1023"
  shows "\<exists>r. toDouble x = Fin r \<and> x * (1 - 1 / 2 ^ 53) \<le> r \<and> r \<le> x * (1 + 1 / 2 ^ 53)"
proof -
  have "(0 :: real) < 1 / 2 ^ 1022" by simp
  with assms(1) have pos: "0 < x" by linarith
  have "2 powr (- 1022) \<le> \<bar>x\<bar>" "\<bar>x\<bar> \<le> 2 powr 1023"
    using assms pos by (simp_all add: powr_minus powr_numeral field_simps)
  then obtain r where r: "toDouble x = Fin r" and c: "\<bar>r - x\<bar> \<le> \<bar>x\<bar> / 2 ^ 53"
    using toDouble_normal by blast
  from c pos have c': "\<bar>r - x\<bar> \<le> x / 2 ^ 53" by simp
  then have "x - x / 2 ^ 53 \<le> r" "r \<le> x + x / 2 ^ 53" by linarith+
  then have "x * (1 - 1 / 2 ^ 53) \<le> r" "r \<le> x * (1 + 1 / 2 ^ 53)"
    by (simp_all add: algebra_simps)
  with r show ?thesis by blast
qed

text \<open>\<open>n / (sqrt n * sqrt n)\<close> in doubles, for a squared norm in the normal range.\<close>

lemma self_ratio:
  assumes lo: "1 / 2 ^ 1021 \<le> n" and hi: "n \<le> 2 ^ 1022"
  shows "\<exists>q. fdiv (Fin n) (fmul (fsqrt (Fin n)) (fsqrt (Fin n))) = Fin q \<and> \<bar>q - 1\<bar> \<le> 1 / 2 ^ 50"
proof -
  define eps :: real where "eps = 1 / 2 ^ 53"
  have eps: "0 < eps" "eps < 1" by (simp_all add: eps_def)
  have "(0 :: real) < 1 / 2 ^ 1021" by simp
  with lo have npos: "0 < n" by linarith
  have sq: "sqrt n * sqrt n = n" using npos by simp
  have s_lo: "1 / 2 ^ 1022 \<le> sqrt n"
  proof -
    have "(1 / 2 ^ 511 :: real)\<^sup>2 \<le> n" using lo by (simp add: power2_eq_square)
    then have "1 / 2 ^ 511 \<le> sqrt n" by (rule real_le_rsqrt)
    then show ?thesis by simp
  qed
  have s_hi: "sqrt n \<le> 2 ^ 1023"
  proof -
    have "n \<le> (2 ^ 511 :: real)\<^sup>2" using hi by (simp add: power2_eq_square)
    then have "sqrt n \<le> 2 ^ 511" by (intro real_le_lsqrt) simp_all
    then show ?thesis by simp
  qed
  obtain s where s: "toDouble (sqrt n) = Fin s"
    and s1: "sqrt n * (1 - eps) \<le> s" and s2: "s \<le> sqrt n * (1 + eps)"
    using toDouble_relative [OF s_lo s_hi] unfolding eps_def by blast
  have "0 < sqrt n * (1 - eps)" using npos eps by simp
  with s1 have spos: "0 < s" by linarith
  have ss1: "n * (1 - eps)\<^sup>2 \<le> s * s"
  proof -
    have "0 \<le> sqrt n * (1 - eps)" using npos eps by simp
    then have "(sqrt n * (1 - eps)) * (sqrt n * (1 - eps)) \<le> s * s"
      using s1 spos by (intro mult_mono) simp_all
    then show ?thesis using sq by (simp add: power2_eq_square algebra_simps)
  qed
  have ss2: "s * s \<le> n * (1 + eps)\<^sup>2"
  proof -
    have "s * s \<le> (sqrt n * (1 + eps)) * (sqrt n * (1 + eps))"
      using s2 spos by (intro mult_mono) simp_all
    then show ?thesis using sq by (simp add: power2_eq_square algebra_simps)
  qed
  have c1: "(1 / 2 :: real) \<le> (1 - eps)\<^sup>2" and c2: "(1 + eps)\<^sup>2 \<le> (2 :: real)"
    by (simp_all add: eps_def power2_eq_square)
  have p_lo: "1 / 2 ^ 1022 \<le> s * s"
  proof -
    have "1 / 2 ^ 1021 * (1 / 2) \<le> n * (1 - eps)\<^sup>2"
      using lo c1 by (intro mult_mono) simp_all
    with ss1 show ?thesis by simp
  qed
  have p_hi: "s * s \<le> 2 ^ 1023"
  proof -
    have "n * (1 + eps)\<^sup>2 \<le> 2 ^ 1022 * 2"
      using hi c2 npos by (intro mult_mono) simp_all
    with ss2 show ?thesis by simp
  qed
  obtain p where p: "toDouble (s * s) = Fin p"
    and p1: "s * s * (1 - eps) \<le> p" and p2: "p \<le> s * s * (1 + eps)"
    using toDouble_relative [OF p_lo p_hi] unfolding eps_def by blast
  have pp1: "n * (1 - eps) ^ 3 \<le> p"
  proof -
    have "n * (1 - eps)\<^sup>2 * (1 - eps) \<le> s * s * (1 - eps)"
      using ss1 eps by (intro mult_right_mono) simp_all
    with p1 show ?thesis by (simp add: power3_eq_cube power2_eq_square algebra_simps)
  qed
  have pp2: "p \<le> n * (1 + eps) ^ 3"
  proof -
    have "s * s * (1 + eps) \<le> n * (1 + eps)\<^sup>2 * (1 + eps)"
      using ss2 eps by (intro mult_right_mono) simp_all
    with p2 show ?thesis by (simp add: power3_eq_cube power2_eq_square algebra_simps)
  qed
  have "0 < n * (1 - eps) ^ 3" using npos eps by simp
  with pp1 have ppos: "0 < p" by linarith
  have r1: "1 / (1 + eps) ^ 3 \<le> n / p"
  proof -
    have "n / (n * (1 + eps) ^ 3) \<le> n / p"
      using pp2 ppos npos by (intro divide_left_mono) simp_all
    then show ?thesis using npos by simp
  qed
  have r2: "n / p \<le> 1 / (1 - eps) ^ 3"
  proof -
    have "0 < n * (1 - eps) ^ 3" using npos eps by simp
    then have "n / p \<le> n / (n * (1 - eps) ^ 3)"
      using pp1 npos ppos by (intro divide_left_mono) simp_all
    then show ?thesis using npos by simp
  qed
  have c3: "(1 / 2 :: real) \<le> 1 / (1 + eps) ^ 3" and c4: "1 / (1 - eps) ^ 3 \<le> (2 :: real)"
    by (simp_all add: eps_def field_simps)
  have "(1 / 2 ^ 1022 :: real) \<le> 1 / 2" by simp
  with r1 c3 have q_lo: "1 / 2 ^ 1022 \<le> n / p" by linarith
  have "(2 :: real) \<le> 2 ^ 1023" by simp
  with r2 c4 have q_hi: "n / p \<le> 2 ^ 1023" by linarith
  obtain q where q: "toDouble (n / p) = Fin q"
    and q1: "n / p * (1 - eps) \<le> q" and q2: "q \<le> n / p * (1 + eps)"
    using toDouble_relative [OF q_lo q_hi] unfolding eps_def by blast
  have "1 / (1 + eps) ^ 3 * (1 - eps) \<le> n / p * (1 - eps)"
    using r1 eps by (intro mult_right_mono) simp_all
  moreover have "1 - 1 / 2 ^ 50 \<le> 1 / (1 + eps) ^ 3 * (1 - eps)"
    by (simp add: eps_def field_simps)
  ultimately have lower: "1 - 1 / 2 ^ 50 \<le> q" using q1 by linarith
  have "n / p * (1 + eps) \<le> 1 / (1 - eps) ^ 3 * (1 + eps)"
    using r2 eps by (intro mult_right_mono) simp_all
  moreover have "1 / (1 - eps) ^ 3 * (1 + eps) \<le> 1 + 1 / 2 ^ 50"
    by (simp add: eps_def field_simps)
  ultimately have upper: "q \<le> 1 + 1 / 2 ^ 50" using q2 by linarith
  have "fsqrt (Fin n) = Fin s" using npos s by simp
  moreover have "fmul (Fin s) (Fin s) = Fin p" using p by simp
  moreover have "fdiv (Fin n) (Fin p) = Fin q" using ppos q by simp
  ultimately have "fdiv (Fin n) (fmul (fsqrt (Fin n)) (fsqrt (Fin n))) = Fin q" by simp
  moreover have "\<bar>q - 1\<bar> \<le> 1 / 2 ^ 50" using lower upper by linarith
  ultimately show ?thesis by blast
qed

section \<open>Cosine similarity: the claims\<close>

lemma cosineStep_tuple:
  "cosineStep A e1 e2 (d, a, b) i =
     (num_add A d (num_mul A (e1 ! i) (e2 ! i)),
      num_add A a (num_mul A (e1 ! i) (e1 ! i)),
      num_add A b (num_mul A (e2 ! i) (e2 ! i)))"
  unfolding cosineStep_def by (simp only: prod.case)

lemma cosine_fold:
  "foldl (cosineStep A e1 e2) (d, a, b) [0..<n] =
     (foldl (\<lambda>d i. num_add A d (num_mul A (e1 ! i) (e2 ! i))) d [0..<n],
      foldl (\<lambda>a i. num_add A a (num_mul A (e1 ! i) (e1 ! i))) a [0..<n],
      foldl (\<lambda>b i. num_add A b (num_mul A (e2 ! i) (e2 ! i))) b [0..<n])"
proof (induction n)
  case 0
  show ?case by simp
next
  case (Suc n)
  have "foldl (cosineStep A e1 e2) (d, a, b) [0..<Suc n] =
          cosineStep A e1 e2 (foldl (cosineStep A e1 e2) (d, a, b) [0..<n]) n"
    by simp
  also have "\<dots> = cosineStep A e1 e2
      (foldl (\<lambda>d i. num_add A d (num_mul A (e1 ! i) (e2 ! i))) d [0..<n],
       foldl (\<lambda>a i. num_add A a (num_mul A (e1 ! i) (e1 ! i))) a [0..<n],
       foldl (\<lambda>b i. num_add A b (num_mul A (e2 ! i) (e2 ! i))) b [0..<n]) n"
    by (simp only: Suc.IH)
  also have "\<dots> =
     (foldl (\<lambda>d i. num_add A d (num_mul A (e1 ! i) (e2 ! i))) d [0..<Suc n],
      foldl (\<lambda>a i. num_add A a (num_mul A (e1 ! i) (e1 ! i))) a [0..<Suc n],
      foldl (\<lambda>b i. num_add A b (num_mul A (e2 ! i) (e2 ! i))) b [0..<Suc n])"
    by (simp add: cosineStep_tuple)
  finally show ?case .
qed

lemma foldl_index: "foldl (\<lambda>a i. g a (v ! i)) a [0..<length v] = foldl g a v"
proof -
  have "foldl g a (map (\<lambda>i. v ! i) [0..<length v]) = foldl (\<lambda>a i. g a (v ! i)) a [0..<length v]"
    by (rule foldl_map)
  then show ?thesis by (simp add: map_nth)
qed

lemma cosineWith_eq:
  "length e1 = length e2 \<Longrightarrow>
   cosineWith A (Some e1) (Some e2) =
     (if num_is_zero A (squaredNorm A e1) \<or> num_is_zero A (squaredNorm A e2) then num_zero A
      else num_div A
             (foldl (\<lambda>d i. num_add A d (num_mul A (e1 ! i) (e2 ! i))) (num_zero A) [0..<length e1])
             (num_mul A (num_sqrt A (squaredNorm A e1)) (num_sqrt A (squaredNorm A e2))))"
  using foldl_index [of "\<lambda>acc x. num_add A acc (num_mul A x x)" e1 "num_zero A"]
    foldl_index [of "\<lambda>acc x. num_add A acc (num_mul A x x)" e2 "num_zero A"]
  by (simp add: cosineWith_def cosine_fold squaredNorm_def)

lemma cosineWith_self:
  "cosineWith A (Some v) (Some v) =
     (if num_is_zero A (squaredNorm A v) then num_zero A
      else num_div A (squaredNorm A v)
             (num_mul A (num_sqrt A (squaredNorm A v)) (num_sqrt A (squaredNorm A v))))"
  using foldl_index [of "\<lambda>acc x. num_add A acc (num_mul A x x)" v "num_zero A"]
  by (simp add: cosineWith_eq) (simp add: squaredNorm_def)

lemma squaredNorm_ones: "squaredNorm ieee [Fin 1, Fin 1] = Fin 2"
  by (simp add: squaredNorm_def ieee_def toDouble_1 toDouble_2)

lemma cosine_ones:
  "cosineSimilarity (Some [Fin 1, Fin 1]) (Some [Fin 1, Fin 1]) = Fin (1 - 1 / 2 ^ 52)"
proof -
  have "cosineSimilarity (Some [Fin 1, Fin 1]) (Some [Fin 1, Fin 1]) =
      fdiv (Fin 2) (fmul (fsqrt (Fin 2)) (fsqrt (Fin 2)))"
    unfolding cosineSimilarity_def cosineWith_self squaredNorm_ones
    by (simp add: ieee_def)
  also have "fsqrt (Fin 2) = Fin (6369051672525773 / 2 ^ 52)"
    by (simp add: toDouble_sqrt2)
  also have "fmul (Fin (6369051672525773 / 2 ^ 52)) (Fin (6369051672525773 / 2 ^ 52)) =
      Fin (4503599627370497 / 2 ^ 51)"
    by (simp only: fmul.simps toDouble_square)
  also have "fdiv (Fin 2) (Fin (4503599627370497 / 2 ^ 51)) =
      toDouble (2 / (4503599627370497 / 2 ^ 51))"
  proof -
    have "(4503599627370497 / 2 ^ 51 :: real) \<noteq> 0" by simp
    then show ?thesis by (simp only: fdiv.simps if_False)
  qed
  also have "\<dots> = Fin (9007199254740990 / 2 ^ 53)"
    by (rule toDouble_quotient)
  finally show ?thesis by simp
qed

lemma squaredNorm_zero: "\<forall>x\<in>set v. x = Fin 0 \<Longrightarrow> squaredNorm ieee v = Fin 0"
proof -
  have "\<forall>x\<in>set v. x = Fin 0 \<Longrightarrow> foldl (\<lambda>acc x. fadd acc (fmul x x)) (Fin 0) v = Fin 0"
    by (induction v) (simp_all add: toDouble_0)
  then show "\<forall>x\<in>set v. x = Fin 0 \<Longrightarrow> squaredNorm ieee v = Fin 0"
    by (simp add: squaredNorm_def ieee_def)
qed

lemma cosine_zero_norm:
  assumes "squaredNorm ieee e1 = Fin 0 \<or> squaredNorm ieee e2 = Fin 0"
  shows "cosineSimilarity (Some e1) (Some e2) = Fin 0"
proof (cases "length e1 = length e2")
  case True
  from cosineWith_eq [OF True, of ieee] assms show ?thesis
    by (auto simp: cosineSimilarity_def ieee_def)
next
  case False
  then show ?thesis by (simp add: cosineSimilarity_def cosineWith_def ieee_def)
qed

lemma cosine_self_rounded:
  assumes "squaredNorm ieee v = Fin n" and "1 / 2 ^ 1021 \<le> n" and "n \<le> 2 ^ 1022"
  shows "\<exists>q. cosineSimilarity (Some v) (Some v) = Fin q \<and> \<bar>q - 1\<bar> \<le> 1 / 2 ^ 50"
proof -
  have "(0 :: real) < 1 / 2 ^ 1021" by simp
  with assms(2) have "n \<noteq> 0" by linarith
  then have "cosineSimilarity (Some v) (Some v) =
      fdiv (Fin n) (fmul (fsqrt (Fin n)) (fsqrt (Fin n)))"
    unfolding cosineSimilarity_def cosineWith_self assms(1) by (simp add: ieee_def)
  with self_ratio [OF assms(2,3)] show ?thesis by simp
qed

lemma squaredNorm_exact: "squaredNorm exact v = (\<Sum>x\<leftarrow>v. x * x)"
proof -
  have "foldl (\<lambda>acc x. acc + x * x) a v = a + (\<Sum>x\<leftarrow>v. x * x)" for a :: real
    by (induction v arbitrary: a) simp_all
  then show ?thesis by (simp add: squaredNorm_def exact_def)
qed

lemma squares_zero_iff: "(\<Sum>x\<leftarrow>v. x * x) = 0 \<longleftrightarrow> (\<forall>x\<in>set v. x = (0::real))"
proof -
  have "(\<Sum>x\<leftarrow>v. x * x) = 0 \<longleftrightarrow> (\<forall>y\<in>set (map (\<lambda>x. x * x) v). y = 0)"
    by (rule sum_list_nonneg_eq_0_iff) auto
  then show ?thesis by simp
qed

text \<open>In exact arithmetic the value is 1 for every vector with a non-zero entry.\<close>

lemma cosine_self_exact:
  assumes "\<exists>x\<in>set v. x \<noteq> 0"
  shows "cosineExact (Some v) (Some v) = 1"
proof -
  let ?n = "\<Sum>x\<leftarrow>v. x * x"
  have nz: "?n \<noteq> 0" using assms by (simp add: squares_zero_iff)
  have "cosineExact (Some v) (Some v) = ?n / (sqrt ?n * sqrt ?n)"
    unfolding cosineExact_def cosineWith_self squaredNorm_exact using nz by (simp add: exact_def)
  also have "\<dots> = 1"
  proof -
    have "0 \<le> ?n" by (rule sum_list_nonneg) auto
    with nz show ?thesis by simp
  qed
  finally show ?thesis .
qed

text \<open>
  Claim C8, as stated, at the vector \<open>[1, 1]\<close>: the squared norm is 2, the square root of 2
  rounds to \<open>6369051672525773 / 2 ^ 52\<close>, its square rounds to \<open>2 + 2 ^ -51\<close>, and the
  quotient rounds to \<open>1 - 2 ^ -52\<close>, the double below 1.
\<close>

theorem C8_counterexample_ones:
  "cosineSimilarity (Some [Fin 1, Fin 1]) (Some [Fin 1, Fin 1]) = Fin (1 - 1 / 2 ^ 52)
   \<and> cosineSimilarity (Some [Fin 1, Fin 1]) (Some [Fin 1, Fin 1]) \<noteq> Fin 1"
  by (simp add: cosine_ones)

text \<open>
  Claim C8, amended. \<open>cosineSimilarity\<close> has no failing path: it is a function to the
  numbers. It returns exactly 0 when an argument is null or absent, when the lengths
  differ, and when the squared norm computed for either argument is 0, as it is for a
  vector of zeros. For a vector whose computed squared norm \<open>n\<close> is finite with
  \<open>2 ^ -1021 \<le> n \<le> 2 ^ 1022\<close>, \<open>cosineSimilarity v v\<close> is a finite number within
  \<open>2 ^ -50\<close> of 1.
\<close>

theorem C8_cosine_safety:
  "(a = None \<or> b = None \<longrightarrow> cosineSimilarity a b = Fin 0)
   \<and> (length e1 \<noteq> length e2 \<longrightarrow> cosineSimilarity (Some e1) (Some e2) = Fin 0)
   \<and> (squaredNorm ieee e1 = Fin 0 \<or> squaredNorm ieee e2 = Fin 0 \<longrightarrow>
        cosineSimilarity (Some e1) (Some e2) = Fin 0)
   \<and> ((\<forall>x\<in>set e1. x = Fin 0) \<longrightarrow> squaredNorm ieee e1 = Fin 0)
   \<and> (squaredNorm ieee v = Fin n \<and> 1 / 2 ^ 1021 \<le> n \<and> n \<le> 2 ^ 1022 \<longrightarrow>
        (\<exists>q. cosineSimilarity (Some v) (Some v) = Fin q \<and> \<bar>q - 1\<bar> \<le> 1 / 2 ^ 50))"
proof (intro conjI impI)
  assume "a = None \<or> b = None"
  then show "cosineSimilarity a b = Fin 0"
    by (auto simp: cosineSimilarity_def cosineWith_def ieee_def split: option.splits)
next
  assume "length e1 \<noteq> length e2"
  then show "cosineSimilarity (Some e1) (Some e2) = Fin 0"
    by (simp add: cosineSimilarity_def cosineWith_def ieee_def)
next
  assume "squaredNorm ieee e1 = Fin 0 \<or> squaredNorm ieee e2 = Fin 0"
  then show "cosineSimilarity (Some e1) (Some e2) = Fin 0"
    by (rule cosine_zero_norm)
next
  assume "\<forall>x\<in>set e1. x = Fin 0"
  then show "squaredNorm ieee e1 = Fin 0"
    by (rule squaredNorm_zero)
next
  assume "squaredNorm ieee v = Fin n \<and> 1 / 2 ^ 1021 \<le> n \<and> n \<le> 2 ^ 1022"
  then show "\<exists>q. cosineSimilarity (Some v) (Some v) = Fin q \<and> \<bar>q - 1\<bar> \<le> 1 / 2 ^ 50"
    using cosine_self_rounded [of v n] by blast
qed

theorem C8_cosine_safety_witness:
  "cosineSimilarity None (Some [Fin 1]) = Fin 0
   \<and> cosineSimilarity (Some [Fin 1]) None = Fin 0
   \<and> cosineSimilarity (Some [Fin 1]) (Some [Fin 1, Fin 2]) = Fin 0
   \<and> squaredNorm ieee [Fin 0, Fin 0] = Fin 0
   \<and> cosineSimilarity (Some [Fin 0, Fin 0]) (Some [Fin 3, Fin 4]) = Fin 0
   \<and> squaredNorm ieee [Fin 1, Fin 1] = Fin 2
   \<and> (\<exists>q. cosineSimilarity (Some [Fin 1, Fin 1]) (Some [Fin 1, Fin 1]) = Fin q
          \<and> \<bar>q - 1\<bar> \<le> 1 / 2 ^ 50)"
proof -
  have 1: "cosineSimilarity None (Some [Fin 1]) = Fin 0"
    using C8_cosine_safety [of None "Some [Fin 1]"] by simp
  have 2: "cosineSimilarity (Some [Fin 1]) None = Fin 0"
    using C8_cosine_safety [of "Some [Fin 1]" None] by simp
  have 3: "cosineSimilarity (Some [Fin 1]) (Some [Fin 1, Fin 2]) = Fin 0"
    using C8_cosine_safety [of _ _ "[Fin 1]" "[Fin 1, Fin 2]"] by simp
  have 4: "squaredNorm ieee [Fin 0, Fin 0] = Fin 0"
    using C8_cosine_safety [of _ _ "[Fin 0, Fin 0]"] by simp
  have 5: "cosineSimilarity (Some [Fin 0, Fin 0]) (Some [Fin 3, Fin 4]) = Fin 0"
    using C8_cosine_safety [of _ _ "[Fin 0, Fin 0]" "[Fin 3, Fin 4]"] 4 by blast
  have 6: "squaredNorm ieee [Fin 1, Fin 1] = Fin 2"
    by (rule squaredNorm_ones)
  have b: "(1 / 2 ^ 1021 :: real) \<le> 2" "(2 :: real) \<le> 2 ^ 1022" by simp_all
  have 7: "\<exists>q. cosineSimilarity (Some [Fin 1, Fin 1]) (Some [Fin 1, Fin 1]) = Fin q
          \<and> \<bar>q - 1\<bar> \<le> 1 / 2 ^ 50"
    using C8_cosine_safety [of _ _ _ _ "[Fin 1, Fin 1]" 2] 6 b by blast
  from 1 2 3 4 5 6 7 show ?thesis by blast
qed

section \<open>The attention scorer: the claims\<close>

























section \<open>Ranked filtering: the claims\<close>

lemma map_fst_similaritiesOf: "map fst (similaritiesOf f m) = map fst m"
  by (simp add: similaritiesOf_def case_prod_unfold comp_def)

lemma set_sortDescending: "set (sortDescending items) = set items"
  by (simp add: sortDescending_def)

lemma length_sortDescending: "length (sortDescending items) = length items"
  by (simp add: sortDescending_def)

lemma distinct_map_insort_key:
  "distinct (map h (insort_key g x xs)) \<longleftrightarrow> h x \<notin> h ` set xs \<and> distinct (map h xs)"
  by (induction xs) (auto simp: set_insort_key)

lemma distinct_map_sort_key: "distinct (map h (sort_key g xs)) = distinct (map h xs)"
  by (induction xs) (simp_all add: distinct_map_insort_key)

lemma distinct_ids_sortDescending:
  "distinct (map fst (sortDescending items)) = distinct (map fst items)"
  by (simp add: sortDescending_def distinct_map_sort_key)

text \<open>The hide loop, whatever the order of the items.\<close>

lemma hideStep_map:
  "hideStep t (map (\<lambda>(k, pd). (k, if k \<in> A then pd\<lparr>hidden := True\<rparr> else pd)) m) x =
     map (\<lambda>(k, pd). (k, if k \<in> (if t \<le> snd x then insert (fst x) A else A)
                          then pd\<lparr>hidden := True\<rparr> else pd)) m"
  by (simp add: hideStep_def setHidden_def case_prod_unfold)

lemma hide_fold:
  "foldl (hideStep t) m items =
     map (\<lambda>(k, pd). (k, if k \<in> fst ` {it \<in> set items. t \<le> snd it} then pd\<lparr>hidden := True\<rparr> else pd)) m"
proof (induction items rule: rev_induct)
  case Nil
  show ?case by (simp add: case_prod_unfold)
next
  case (snoc x xs)
  have A: "(if t \<le> snd x then insert (fst x) (fst ` {it \<in> set xs. t \<le> snd it})
            else fst ` {it \<in> set xs. t \<le> snd it}) = fst ` {it \<in> set (xs @ [x]). t \<le> snd it}"
    by auto
  have "foldl (hideStep t) m (xs @ [x]) = hideStep t (foldl (hideStep t) m xs) x"
    by simp
  also have "\<dots> = hideStep t
      (map (\<lambda>(k, pd). (k, if k \<in> fst ` {it \<in> set xs. t \<le> snd it} then pd\<lparr>hidden := True\<rparr> else pd)) m) x"
    by (simp only: snoc.IH)
  also have "\<dots> = map (\<lambda>(k, pd). (k, if k \<in> fst ` {it \<in> set (xs @ [x]). t \<le> snd it}
                                      then pd\<lparr>hidden := True\<rparr> else pd)) m"
    by (simp only: hideStep_map A)
  finally show ?case .
qed

lemma set_similaritiesOf:
  "set (similaritiesOf f m) =
     (\<lambda>(k, pd). (k, score (attentionScore (pd_text pd) (queryVec f)))) ` set m"
  by (simp add: similaritiesOf_def)

lemma applyFilter_hide:
  assumes "mode f = Hide" and "distinct (map fst m)"
  shows "applyFilter f m =
     map (\<lambda>(postId, pd).
            (postId, if threshold f \<le> score (attentionScore (pd_text pd) (queryVec f))
                     then pd\<lparr>hidden := True\<rparr> else pd)) m"
proof -
  let ?items = "sortDescending (similaritiesOf f m)"
  let ?rel = "\<lambda>pd. score (attentionScore (pd_text pd) (queryVec f))"
  have mem: "k \<in> fst ` {it \<in> set ?items. threshold f \<le> snd it} \<longleftrightarrow> threshold f \<le> ?rel pd"
    if in_m: "(k, pd) \<in> set m" for k pd
  proof
    assume "k \<in> fst ` {it \<in> set ?items. threshold f \<le> snd it}"
    then obtain s where "(k, s) \<in> set (similaritiesOf f m)" and ts: "threshold f \<le> s"
      by (auto simp: set_sortDescending)
    then obtain pd' where "(k, pd') \<in> set m" and s: "s = ?rel pd'"
      by (auto simp: set_similaritiesOf)
    with assms(2) in_m have "pd' = pd" by (meson eq_key_imp_eq_value)
    with ts s show "threshold f \<le> ?rel pd" by simp
  next
    assume "threshold f \<le> ?rel pd"
    moreover from in_m have "(k, ?rel pd) \<in> set ?items"
      by (auto simp: set_sortDescending set_similaritiesOf image_iff intro!: bexI [of _ "(k, pd)"])
    ultimately show "k \<in> fst ` {it \<in> set ?items. threshold f \<le> snd it}"
      by (auto simp: image_iff intro!: bexI [of _ "(k, ?rel pd)"])
  qed
  have "applyFilter f m = foldl (hideStep (threshold f)) m ?items"
    using assms(1) by (simp add: applyFilter_def)
  also have "\<dots> = map (\<lambda>(k, pd). (k, if k \<in> fst ` {it \<in> set ?items. threshold f \<le> snd it}
                                       then pd\<lparr>hidden := True\<rparr> else pd)) m"
    by (rule hide_fold)
  also have "\<dots> = map (\<lambda>(postId, pd).
            (postId, if threshold f \<le> ?rel pd then pd\<lparr>hidden := True\<rparr> else pd)) m"
  proof (rule map_cong [OF refl])
    fix x assume "x \<in> set m"
    then have "(fst x, snd x) \<in> set m" by simp
    from mem [OF this]
    show "(case x of (k, pd) \<Rightarrow> (k, if k \<in> fst ` {it \<in> set ?items. threshold f \<le> snd it}
                                       then pd\<lparr>hidden := True\<rparr> else pd)) =
          (case x of (postId, pd) \<Rightarrow>
            (postId, if threshold f \<le> ?rel pd then pd\<lparr>hidden := True\<rparr> else pd))"
      by (simp add: case_prod_unfold)
  qed
  finally show ?thesis .
qed

lemma applyFilter_show:
  "mode f = Show \<Longrightarrow>
   applyFilter f m =
     map (\<lambda>(postId, pd).
            (postId, pd\<lparr>hidden := (postId \<notin> set (take (if topK f = 0 then 20 else topK f)
                                       (map fst (sortDescending (similaritiesOf f m)))))\<rparr>)) m"
  by (simp add: applyFilter_def Let_def take_map)

lemma keys_applyFilter: "map fst (applyFilter f m) = map fst m"
proof (cases "mode f")
  case Hide
  then have "applyFilter f m = foldl (hideStep (threshold f)) m (sortDescending (similaritiesOf f m))"
    by (simp add: applyFilter_def)
  then show ?thesis by (simp add: hide_fold case_prod_unfold comp_def)
next
  case Show
  then show ?thesis by (simp add: applyFilter_show case_prod_unfold comp_def)
qed

lemma texts_applyFilter: "map (\<lambda>e. pd_text (snd e)) (applyFilter f m) = map (\<lambda>e. pd_text (snd e)) m"
proof (cases "mode f")
  case Hide
  then have "applyFilter f m = foldl (hideStep (threshold f)) m (sortDescending (similaritiesOf f m))"
    by (simp add: applyFilter_def)
  then show ?thesis by (simp add: hide_fold case_prod_unfold comp_def)
next
  case Show
  then show ?thesis by (simp add: applyFilter_show case_prod_unfold comp_def)
qed

lemma similaritiesOf_cong:
  "map fst m = map fst m' \<Longrightarrow> map (\<lambda>e. pd_text (snd e)) m = map (\<lambda>e. pd_text (snd e)) m' \<Longrightarrow>
   similaritiesOf f m = similaritiesOf f m'"
proof (induction m arbitrary: m')
  case Nil
  then show ?case by (simp add: similaritiesOf_def)
next
  case (Cons a m)
  then obtain b n where m': "m' = b # n" by (cases m') auto
  with Cons.prems have "similaritiesOf f m = similaritiesOf f n" by (intro Cons.IH) simp_all
  with Cons.prems m' show ?case by (simp add: similaritiesOf_def case_prod_unfold)
qed

lemma keys_pass: "map fst (foldl (\<lambda>m f. applyFilter f m) m fs) = map fst m"
  by (induction fs arbitrary: m) (simp_all add: keys_applyFilter)

lemma texts_pass:
  "map (\<lambda>e. pd_text (snd e)) (foldl (\<lambda>m f. applyFilter f m) m fs) = map (\<lambda>e. pd_text (snd e)) m"
  by (induction fs arbitrary: m) (simp_all add: texts_applyFilter)

lemma count_marked:
  assumes "distinct (map fst m)" and "T \<subseteq> set (map fst m)"
  shows "length (filter (\<lambda>(k, pd). k \<in> T) m) = card T"
proof -
  have "length (filter (\<lambda>(k, pd). k \<in> T) m) = length (map fst (filter (\<lambda>e. fst e \<in> T) m))"
    by (simp add: case_prod_unfold)
  also have "\<dots> = length (filter (\<lambda>k. k \<in> T) (map fst m))"
    by (simp add: filter_map comp_def)
  also have "\<dots> = card ({k. k \<in> T} \<inter> set (map fst m))"
    using assms(1) by (rule distinct_length_filter)
  also have "{k. k \<in> T} \<inter> set (map fst m) = T" using assms(2) by auto
  finally show ?thesis .
qed

lemma show_result:
  assumes "mode f = Show" and "distinct (map fst m)"
  defines "K \<equiv> (if topK f = 0 then 20 else topK f)"
  defines "T \<equiv> set (take K (map fst (sortDescending (similaritiesOf f m))))"
  shows "visibleIds (applyFilter f m) = T"
    and "visibleCount (applyFilter f m) = min K (length m)"
    and "hiddenCount (applyFilter f m) = length m - min K (length m)"
proof -
  let ?ys = "map fst (sortDescending (similaritiesOf f m))"
  have set_ys: "set ?ys = set (map fst m)"
    using map_fst_similaritiesOf [of f m]
    by (metis set_map set_sortDescending)
  have dist_ys: "distinct ?ys"
    using assms(2) by (simp add: distinct_ids_sortDescending map_fst_similaritiesOf)
  have len_ys: "length ?ys = length m"
    by (simp add: length_sortDescending similaritiesOf_def)
  have sub: "T \<subseteq> set (map fst m)"
    unfolding T_def using set_take_subset [of K ?ys] set_ys by blast
  have card: "card T = min K (length m)"
    unfolding T_def using dist_ys len_ys by (simp add: distinct_card min.commute)
  have res: "applyFilter f m = map (\<lambda>(postId, pd). (postId, pd\<lparr>hidden := (postId \<notin> T)\<rparr>)) m"
    unfolding T_def K_def using assms(1) by (rule applyFilter_show)
  have vis: "filter (\<lambda>(k, pd). \<not> hidden pd) (applyFilter f m) =
      map (\<lambda>(postId, pd). (postId, pd\<lparr>hidden := (postId \<notin> T)\<rparr>)) (filter (\<lambda>(k, pd). k \<in> T) m)"
    by (simp add: res filter_map comp_def case_prod_unfold)
  have "visibleIds (applyFilter f m) =
      set (map fst (map (\<lambda>(postId, pd). (postId, pd\<lparr>hidden := (postId \<notin> T)\<rparr>))
        (filter (\<lambda>(k, pd). k \<in> T) m)))"
    by (simp only: visibleIds_def vis)
  also have "\<dots> = fst ` {e \<in> set m. fst e \<in> T}"
    by (simp add: comp_def case_prod_unfold)
  also have "\<dots> = T"
    using sub by force
  finally show "visibleIds (applyFilter f m) = T" .
  show c: "visibleCount (applyFilter f m) = min K (length m)"
    using count_marked [OF assms(2) sub] by (simp add: visibleCount_def vis card)
  have "hiddenCount (applyFilter f m) + visibleCount (applyFilter f m) = length (applyFilter f m)"
    unfolding hiddenCount_def visibleCount_def
    using sum_length_filter_compl [of "\<lambda>(k, pd). hidden pd" "applyFilter f m"]
    by (simp add: case_prod_unfold)
  moreover have "length (applyFilter f m) = length m"
    using keys_applyFilter [of f m] by (metis length_map)
  ultimately show "hiddenCount (applyFilter f m) = length m - min K (length m)"
    using c by simp
qed

text \<open>Order in a filtered list is order in the list.\<close>

lemma filter_split_order:
  assumes "distinct xs" and "filter P xs = us @ vs"
    and "xs ! i \<in> set us" and "xs ! j \<in> set vs"
    and "i < length xs" and "j < length xs"
  shows "i < j"
  using assms
proof (induction xs arbitrary: us i j)
  case Nil
  then show ?case by simp
next
  case (Cons x xs)
  have b_in: "(x # xs) ! j \<in> set (filter P (x # xs))" using Cons.prems by simp
  have a_in: "(x # xs) ! i \<in> set (filter P (x # xs))" using Cons.prems by simp
  show ?case
  proof (cases "P x")
    case True
    with Cons.prems obtain us' where us: "us = x # us'" and rest: "filter P xs = us' @ vs"
      by (cases us) auto
    have "(x # xs) ! j \<in> set (filter P xs)" using Cons.prems(4) rest by simp
    then have "(x # xs) ! j \<in> set xs" by simp
    with Cons.prems(1) have "j \<noteq> 0" by (cases j) auto
    then obtain j' where j: "j = Suc j'" by (cases j) auto
    show ?thesis
    proof (cases i)
      case 0
      with j show ?thesis by simp
    next
      case (Suc i')
      with Cons.prems have "xs ! i' \<in> set xs" by simp
      with Cons.prems(1) have "xs ! i' \<noteq> x" by auto
      with Cons.prems(3) us Suc have "xs ! i' \<in> set us'" by simp
      moreover from Cons.prems(4) j have "xs ! j' \<in> set vs" by simp
      moreover have "distinct xs" "i' < length xs" "j' < length xs"
        using Cons.prems Suc j by simp_all
      ultimately have "i' < j'"
        using rest by (intro Cons.IH [of us' i' j'])
      with Suc j show ?thesis by simp
    qed
  next
    case False
    with Cons.prems have rest: "filter P xs = us @ vs" by simp
    from a_in False have "i \<noteq> 0" by (cases i) auto
    then obtain i' where i: "i = Suc i'" by (cases i) auto
    from b_in False have "j \<noteq> 0" by (cases j) auto
    then obtain j' where j: "j = Suc j'" by (cases j) auto
    have "distinct xs" "i' < length xs" "j' < length xs" "xs ! i' \<in> set us" "xs ! j' \<in> set vs"
      using Cons.prems i j by simp_all
    then have "i' < j'"
      using rest by (intro Cons.IH [of us i' j'])
    with i j show ?thesis by simp
  qed
qed

text \<open>What the first \<open>K\<close> of a stable sort are: an element among them and one that is not
  differ in the key, or have the same key and stand in the list in that order.\<close>

lemma stable_take_dominates:
  fixes g :: "'a \<Rightarrow> real"
  assumes dist: "distinct xs" and i: "i < length xs" and j: "j < length xs"
    and a: "xs ! i \<in> set (take K (sort_key g xs))"
    and b: "xs ! j \<notin> set (take K (sort_key g xs))"
  shows "g (xs ! i) < g (xs ! j) \<or> (g (xs ! i) = g (xs ! j) \<and> i < j)"
proof -
  let ?ys = "sort_key g xs"
  have split: "?ys = take K ?ys @ drop K ?ys" by simp
  have "xs ! j \<in> set ?ys" using j by simp
  with b have b': "xs ! j \<in> set (drop K ?ys)"
    by (metis Un_iff append_take_drop_id set_append)
  have "sorted (map g (take K ?ys) @ map g (drop K ?ys))"
    by (metis append_take_drop_id map_append sorted_sort_key)
  with a b' have le: "g (xs ! i) \<le> g (xs ! j)"
    by (auto simp: sorted_append)
  show ?thesis
  proof (cases "g (xs ! i) = g (xs ! j)")
    case False
    with le show ?thesis by simp
  next
    case True
    let ?P = "\<lambda>y. g y = g (xs ! j)"
    have "filter ?P xs = filter ?P ?ys" by (simp add: sort_key_stable)
    also have "\<dots> = filter ?P (take K ?ys) @ filter ?P (drop K ?ys)"
      by (metis append_take_drop_id filter_append)
    finally have eq: "filter ?P xs = filter ?P (take K ?ys) @ filter ?P (drop K ?ys)" .
    have a'': "xs ! i \<in> set (filter ?P (take K ?ys))" using a True by simp
    have b'': "xs ! j \<in> set (filter ?P (drop K ?ys))" using b' by simp
    have "i < j" by (rule filter_split_order [OF dist eq a'' b'' i j])
    with True show ?thesis by simp
  qed
qed

lemma pass_nonempty:
  assumes "filters s \<noteq> []"
  shows "processedPosts (applyRankedFiltering s) =
     applyFilter (last (filters s))
       (foldl (\<lambda>m f. applyFilter f m) (processedPosts s) (butlast (filters s)))"
    and "stats_hidden (applyRankedFiltering s) = hiddenCount (processedPosts (applyRankedFiltering s))"
proof -
  have "filters s = butlast (filters s) @ [last (filters s)]"
    using assms by simp
  then have "foldl (\<lambda>m f. applyFilter f m) (processedPosts s) (filters s) =
      applyFilter (last (filters s))
        (foldl (\<lambda>m f. applyFilter f m) (processedPosts s) (butlast (filters s)))"
    by (metis foldl_Cons foldl_Nil foldl_append)
  then show "processedPosts (applyRankedFiltering s) =
     applyFilter (last (filters s))
       (foldl (\<lambda>m f. applyFilter f m) (processedPosts s) (butlast (filters s)))"
    using assms by (simp add: applyRankedFiltering_def Let_def)
  show "stats_hidden (applyRankedFiltering s) = hiddenCount (processedPosts (applyRankedFiltering s))"
    using assms by (simp add: applyRankedFiltering_def Let_def)
qed

lemma nth_similaritiesOf:
  "i < length m \<Longrightarrow>
   similaritiesOf f m ! i = (fst (m ! i), score (attentionScore (pd_text (snd (m ! i))) (queryVec f)))"
  by (simp add: similaritiesOf_def case_prod_unfold)

lemma show_pass:
  assumes ne: "filters s \<noteq> []" and sh: "mode (last (filters s)) = Show"
    and dist: "distinct (map fst (processedPosts s))"
  defines "f \<equiv> last (filters s)"
  defines "m \<equiv> processedPosts s"
  defines "K \<equiv> (if topK f = 0 then 20 else topK f)"
  defines "m' \<equiv> processedPosts (applyRankedFiltering s)"
  shows "map fst m' = map fst m"
    and "visibleIds m' = set (take K (map fst (sortDescending (similaritiesOf f m))))"
    and "visibleCount m' = min K (length m)"
    and "hiddenCount m' = length m - min K (length m)"
    and "stats_hidden (applyRankedFiltering s) = length m - min K (length m)"
    and "\<forall>i<length m. \<forall>j<length m. \<not> hidden (snd (m' ! i)) \<and> hidden (snd (m' ! j)) \<longrightarrow>
           score (attentionScore (pd_text (snd (m ! j))) (queryVec f))
             < score (attentionScore (pd_text (snd (m ! i))) (queryVec f))
           \<or> (score (attentionScore (pd_text (snd (m ! i))) (queryVec f))
                = score (attentionScore (pd_text (snd (m ! j))) (queryVec f)) \<and> i < j)"
proof -
  let ?m0 = "foldl (\<lambda>m f. applyFilter f m) m (butlast (filters s))"
  let ?xs = "similaritiesOf f m"
  let ?g = "\<lambda>item :: string \<times> real. - snd item"
  let ?T = "set (take K (map fst (sortDescending ?xs)))"
  have m': "m' = applyFilter f ?m0"
    unfolding m'_def f_def m_def using ne by (rule pass_nonempty)
  have keys0: "map fst ?m0 = map fst m" by (rule keys_pass)
  have texts0: "map (\<lambda>e. pd_text (snd e)) ?m0 = map (\<lambda>e. pd_text (snd e)) m" by (rule texts_pass)
  have sims: "similaritiesOf f ?m0 = ?xs" using keys0 texts0 by (rule similaritiesOf_cong)
  have dist0: "distinct (map fst ?m0)" unfolding keys0 using dist by (simp add: m_def)
  have len0: "length ?m0 = length m" using keys0 by (metis length_map)
  have shf: "mode f = Show" using sh by (simp add: f_def)
  show "map fst m' = map fst m" by (simp add: m' keys_applyFilter keys0)
  show "visibleIds m' = ?T"
    using show_result(1) [OF shf dist0] by (simp add: m' sims K_def)
  show "visibleCount m' = min K (length m)"
    using show_result(2) [OF shf dist0] by (simp add: m' len0 K_def)
  show hc: "hiddenCount m' = length m - min K (length m)"
    using show_result(3) [OF shf dist0] by (simp add: m' len0 K_def)
  show "stats_hidden (applyRankedFiltering s) = length m - min K (length m)"
    using pass_nonempty(2) [OF ne] hc by (simp add: m'_def)
  have res: "m' = map (\<lambda>(postId, pd). (postId, pd\<lparr>hidden := (postId \<notin> ?T)\<rparr>)) ?m0"
    using applyFilter_show [OF shf, of ?m0] by (simp add: m' sims K_def)
  have hid: "hidden (snd (m' ! i)) \<longleftrightarrow> fst (m ! i) \<notin> ?T" if "i < length m" for i
  proof -
    have "fst (?m0 ! i) = fst (m ! i)"
      using that len0 keys0 by (metis nth_map)
    then show ?thesis using that len0 by (simp add: res case_prod_unfold)
  qed
  have dxs: "distinct (map fst ?xs)" using dist by (simp add: map_fst_similaritiesOf m_def)
  then have dist_xs: "distinct ?xs" by (simp add: distinct_map)
  have lxs: "length ?xs = length m" by (simp add: similaritiesOf_def)
  have inT: "fst (m ! i) \<in> ?T \<longleftrightarrow> ?xs ! i \<in> set (take K (sort_key ?g ?xs))" if "i < length m" for i
  proof
    assume "fst (m ! i) \<in> ?T"
    then obtain e where e: "e \<in> set (take K (sort_key ?g ?xs))" and fe: "fst e = fst (m ! i)"
      by (auto simp: sortDescending_def take_map)
    from e have "e \<in> set ?xs" using set_take_subset [of K "sort_key ?g ?xs"] by auto
    moreover have "?xs ! i \<in> set ?xs" using that lxs by simp
    moreover have "fst (?xs ! i) = fst e" using that fe by (simp add: nth_similaritiesOf)
    ultimately have "e = ?xs ! i" using dxs by (metis distinct_map inj_onD)
    with e show "?xs ! i \<in> set (take K (sort_key ?g ?xs))" by simp
  next
    assume "?xs ! i \<in> set (take K (sort_key ?g ?xs))"
    then have "fst (?xs ! i) \<in> fst ` set (take K (sort_key ?g ?xs))" by (rule imageI)
    then show "fst (m ! i) \<in> ?T"
      using that by (simp add: nth_similaritiesOf sortDescending_def take_map)
  qed
  show "\<forall>i<length m. \<forall>j<length m. \<not> hidden (snd (m' ! i)) \<and> hidden (snd (m' ! j)) \<longrightarrow>
           score (attentionScore (pd_text (snd (m ! j))) (queryVec f))
             < score (attentionScore (pd_text (snd (m ! i))) (queryVec f))
           \<or> (score (attentionScore (pd_text (snd (m ! i))) (queryVec f))
                = score (attentionScore (pd_text (snd (m ! j))) (queryVec f)) \<and> i < j)"
  proof (intro allI impI)
    fix i j
    assume i: "i < length m" and j: "j < length m"
      and vh: "\<not> hidden (snd (m' ! i)) \<and> hidden (snd (m' ! j))"
    from vh i j have a: "?xs ! i \<in> set (take K (sort_key ?g ?xs))"
      and b: "?xs ! j \<notin> set (take K (sort_key ?g ?xs))"
      using hid inT by simp_all
    from i j lxs have i': "i < length ?xs" and j': "j < length ?xs" by simp_all
    from stable_take_dominates [OF dist_xs i' j' a b]
    show "score (attentionScore (pd_text (snd (m ! j))) (queryVec f))
             < score (attentionScore (pd_text (snd (m ! i))) (queryVec f))
           \<or> (score (attentionScore (pd_text (snd (m ! i))) (queryVec f))
                = score (attentionScore (pd_text (snd (m ! j))) (queryVec f)) \<and> i < j)"
      using i j by (simp add: nth_similaritiesOf)
  qed
qed

text \<open>
  Claim C6. Applying a hide filter with threshold \<open>T\<close> to the known posts (a \<open>Map\<close>: the
  ids are distinct) hides every post whose relevance against the filter's query vector
  is at least \<open>T\<close> and leaves every other post as it was; the ids, the texts and the order
  stay. So a post that was hidden stays hidden.
\<close>

theorem C6_hide_mode_frame:
  assumes "mode f = Hide" and "distinct (map fst m)"
  shows "applyFilter f m =
       map (\<lambda>(postId, pd).
              (postId, if threshold f \<le> score (attentionScore (pd_text pd) (queryVec f))
                       then pd\<lparr>hidden := True\<rparr> else pd)) m
     \<and> (\<forall>i<length m.
          (threshold f \<le> score (attentionScore (pd_text (snd (m ! i))) (queryVec f))
             \<longrightarrow> hidden (snd (applyFilter f m ! i)))
        \<and> (score (attentionScore (pd_text (snd (m ! i))) (queryVec f)) < threshold f
             \<longrightarrow> applyFilter f m ! i = m ! i)
        \<and> (hidden (snd (m ! i)) \<longrightarrow> hidden (snd (applyFilter f m ! i))))"
proof -
  have eq: "applyFilter f m =
       map (\<lambda>(postId, pd).
              (postId, if threshold f \<le> score (attentionScore (pd_text pd) (queryVec f))
                       then pd\<lparr>hidden := True\<rparr> else pd)) m"
    using assms by (rule applyFilter_hide)
  show ?thesis
    by (rule conjI [OF eq]) (simp add: eq case_prod_unfold)
qed

theorem C6_hide_mode_frame_witness:
  "mode \<lparr>query = ''sports'', mode = Hide, topK = 20, threshold = 0.5,
          queryVec = buildQueryVector ''sports''\<rparr> = Hide
   \<and> distinct (map fst [(''1'', \<lparr>pd_text = ''sports news'', hidden = False\<rparr>),
                        (''2'', \<lparr>pd_text = ''cats'', hidden = True\<rparr>)])
   \<and> applyFilter \<lparr>query = ''sports'', mode = Hide, topK = 20, threshold = 0.5,
          queryVec = buildQueryVector ''sports''\<rparr>
        [(''1'', \<lparr>pd_text = ''sports news'', hidden = False\<rparr>),
         (''2'', \<lparr>pd_text = ''cats'', hidden = True\<rparr>)] =
       map (\<lambda>(postId, pd).
              (postId, if 0.5 \<le> score (attentionScore (pd_text pd) (buildQueryVector ''sports''))
                       then pd\<lparr>hidden := True\<rparr> else pd))
        [(''1'', \<lparr>pd_text = ''sports news'', hidden = False\<rparr>),
         (''2'', \<lparr>pd_text = ''cats'', hidden = True\<rparr>)]"
proof -
  have h1: "mode \<lparr>query = ''sports'', mode = Hide, topK = 20, threshold = 0.5,
          queryVec = buildQueryVector ''sports''\<rparr> = Hide"
    by simp
  have h2: "distinct (map fst [(''1'', \<lparr>pd_text = ''sports news'', hidden = False\<rparr>),
                        (''2'', \<lparr>pd_text = ''cats'', hidden = True\<rparr>)])"
    by simp
  from C6_hide_mode_frame [OF h1 h2] h1 h2 show ?thesis by simp
qed

text \<open>
  Claim C4, as stated, at \<open>K = 0\<close>: one known post and the filter of "show top 0 x" as the
  only filter. After the pass the post is visible, and none is hidden.
\<close>

theorem C4_counterexample_topK_zero:
  "mode (last [\<lparr>query = ''x'', mode = Show, topK = 0, threshold = 0.5,
                 queryVec = buildQueryVector ''x''\<rparr>]) = Show
   \<and> topK (last [\<lparr>query = ''x'', mode = Show, topK = 0, threshold = 0.5,
                 queryVec = buildQueryVector ''x''\<rparr>]) = 0
   \<and> 0 \<le> length [(''1'', \<lparr>pd_text = ''a'', hidden = False\<rparr>)]
   \<and> visibleCount (processedPosts (applyRankedFiltering
        \<lparr>filters = [\<lparr>query = ''x'', mode = Show, topK = 0, threshold = 0.5,
                      queryVec = buildQueryVector ''x''\<rparr>],
         processedPosts = [(''1'', \<lparr>pd_text = ''a'', hidden = False\<rparr>)],
         postBatch = [], stats_processed = 1, stats_hidden = 0,
         enabled = True, batchTimeout = False\<rparr>)) = 1
   \<and> hiddenCount (processedPosts (applyRankedFiltering
        \<lparr>filters = [\<lparr>query = ''x'', mode = Show, topK = 0, threshold = 0.5,
                      queryVec = buildQueryVector ''x''\<rparr>],
         processedPosts = [(''1'', \<lparr>pd_text = ''a'', hidden = False\<rparr>)],
         postBatch = [], stats_processed = 1, stats_hidden = 0,
         enabled = True, batchTimeout = False\<rparr>)) = 0"
  by (simp add: applyRankedFiltering_def applyFilter_def similaritiesOf_def sortDescending_def
      visibleCount_def hiddenCount_def Let_def)

text \<open>
  Claim C4, amended: \<open>K\<close> is at least 1. After a pass whose last filter is a show filter
  with \<open>topK = K\<close>, over \<open>N \<ge> K\<close> known posts, exactly \<open>K\<close> posts are visible and \<open>N - K\<close>
  are hidden (the count that is reported as well). The visible posts are the first \<open>K\<close>
  of the stable sort by descending relevance against the filter's query vector: a visible
  post and a hidden one differ in relevance, the visible one higher, or have the same
  relevance and the visible one comes first in the order of the known posts.
\<close>

theorem C4_show_mode_top_k:
  assumes "filters s \<noteq> []" and "mode (last (filters s)) = Show"
    and "topK (last (filters s)) = K" and "0 < K" and "K \<le> length (processedPosts s)"
    and "distinct (map fst (processedPosts s))"
  shows "visibleCount (processedPosts (applyRankedFiltering s)) = K
     \<and> hiddenCount (processedPosts (applyRankedFiltering s)) = length (processedPosts s) - K
     \<and> stats_hidden (applyRankedFiltering s) = length (processedPosts s) - K
     \<and> map fst (processedPosts (applyRankedFiltering s)) = map fst (processedPosts s)
     \<and> visibleIds (processedPosts (applyRankedFiltering s)) =
         set (take K (map fst (sortDescending
           (similaritiesOf (last (filters s)) (processedPosts s)))))
     \<and> (\<forall>i<length (processedPosts s). \<forall>j<length (processedPosts s).
           \<not> hidden (snd (processedPosts (applyRankedFiltering s) ! i))
           \<and> hidden (snd (processedPosts (applyRankedFiltering s) ! j)) \<longrightarrow>
             score (attentionScore (pd_text (snd (processedPosts s ! j)))
                      (queryVec (last (filters s))))
               < score (attentionScore (pd_text (snd (processedPosts s ! i)))
                      (queryVec (last (filters s))))
             \<or> (score (attentionScore (pd_text (snd (processedPosts s ! i)))
                      (queryVec (last (filters s))))
                  = score (attentionScore (pd_text (snd (processedPosts s ! j)))
                      (queryVec (last (filters s))))
                \<and> i < j))"
proof -
  have K: "(if topK (last (filters s)) = 0 then 20 else topK (last (filters s))) = K"
    using assms(3,4) by simp
  have mn: "min K (length (processedPosts s)) = K"
    using assms(5) by simp
  note sp = show_pass [OF assms(1,2,6), unfolded K mn]
  show ?thesis
    by (intro conjI sp)
qed

theorem C4_show_mode_top_k_witness:
  "filters \<lparr>filters = [\<lparr>query = ''tech'', mode = Show, topK = 1, threshold = 0.5,
                         queryVec = buildQueryVector ''tech''\<rparr>],
            processedPosts = [(''1'', \<lparr>pd_text = ''tech news'', hidden = False\<rparr>),
                              (''2'', \<lparr>pd_text = ''cats'', hidden = False\<rparr>)],
            postBatch = [], stats_processed = 2, stats_hidden = 0,
            enabled = True, batchTimeout = False\<rparr> \<noteq> []
   \<and> (0::nat) < 1
   \<and> visibleCount (processedPosts (applyRankedFiltering
          \<lparr>filters = [\<lparr>query = ''tech'', mode = Show, topK = 1, threshold = 0.5,
                         queryVec = buildQueryVector ''tech''\<rparr>],
            processedPosts = [(''1'', \<lparr>pd_text = ''tech news'', hidden = False\<rparr>),
                              (''2'', \<lparr>pd_text = ''cats'', hidden = False\<rparr>)],
            postBatch = [], stats_processed = 2, stats_hidden = 0,
            enabled = True, batchTimeout = False\<rparr>)) = 1
   \<and> hiddenCount (processedPosts (applyRankedFiltering
          \<lparr>filters = [\<lparr>query = ''tech'', mode = Show, topK = 1, threshold = 0.5,
                         queryVec = buildQueryVector ''tech''\<rparr>],
            processedPosts = [(''1'', \<lparr>pd_text = ''tech news'', hidden = False\<rparr>),
                              (''2'', \<lparr>pd_text = ''cats'', hidden = False\<rparr>)],
            postBatch = [], stats_processed = 2, stats_hidden = 0,
            enabled = True, batchTimeout = False\<rparr>)) = 1"
proof -
  let ?s = "\<lparr>filters = [\<lparr>query = ''tech'', mode = Show, topK = 1, threshold = 0.5,
                         queryVec = buildQueryVector ''tech''\<rparr>],
            processedPosts = [(''1'', \<lparr>pd_text = ''tech news'', hidden = False\<rparr>),
                              (''2'', \<lparr>pd_text = ''cats'', hidden = False\<rparr>)],
            postBatch = [], stats_processed = 2, stats_hidden = 0,
            enabled = True, batchTimeout = False\<rparr>"
  have h: "filters ?s \<noteq> []" "mode (last (filters ?s)) = Show" "topK (last (filters ?s)) = 1"
    "(0::nat) < 1" "1 \<le> length (processedPosts ?s)" "distinct (map fst (processedPosts ?s))"
    by simp_all
  from C4_show_mode_top_k [OF h] h(1,4) show ?thesis by simp
qed

text \<open>
  Claim C10. The command "show top 0 x" gives a show filter with \<open>topK = 0\<close>. For a show
  filter with \<open>topK = 0\<close> the engine works with 20: applying it is applying the filter with
  \<open>topK = 20\<close>, and after a pass that ends with it the first 20 posts of the stable sort
  by descending relevance are visible, that is \<open>min 20 N\<close> posts, so at least one when
  a post is known.
\<close>

theorem C10_topK_zero_is_20:
  "parseCommand ''show top 0 x'' =
     Some \<lparr>query = ''x'', mode = Show, topK = 0, threshold = 0.5,
           queryVec = buildQueryVector ''x''\<rparr>
   \<and> (mode f = Show \<and> topK f = 0 \<longrightarrow> applyFilter f m = applyFilter (f\<lparr>topK := 20\<rparr>) m)
   \<and> (filters s \<noteq> [] \<and> mode (last (filters s)) = Show \<and> topK (last (filters s)) = 0
        \<and> distinct (map fst (processedPosts s)) \<longrightarrow>
          visibleIds (processedPosts (applyRankedFiltering s)) =
            set (take 20 (map fst (sortDescending
              (similaritiesOf (last (filters s)) (processedPosts s)))))
        \<and> visibleCount (processedPosts (applyRankedFiltering s)) =
            min 20 (length (processedPosts s))
        \<and> (processedPosts s \<noteq> [] \<longrightarrow>
             0 < visibleCount (processedPosts (applyRankedFiltering s))))"
proof (intro conjI impI)
  show "parseCommand ''show top 0 x'' =
     Some \<lparr>query = ''x'', mode = Show, topK = 0, threshold = 0.5,
           queryVec = buildQueryVector ''x''\<rparr>"
    by (simp add: parseCommand_def string_defs)
next
  assume "mode f = Show \<and> topK f = 0"
  then show "applyFilter f m = applyFilter (f\<lparr>topK := 20\<rparr>) m"
    by (simp add: applyFilter_def similaritiesOf_def)
next
  assume h: "filters s \<noteq> [] \<and> mode (last (filters s)) = Show \<and> topK (last (filters s)) = 0
        \<and> distinct (map fst (processedPosts s))"
  then have K: "(if topK (last (filters s)) = 0 then 20 else topK (last (filters s))) = 20"
    by simp
  from h have ne: "filters s \<noteq> []" and sh: "mode (last (filters s)) = Show"
    and d: "distinct (map fst (processedPosts s))" by simp_all
  note sp = show_pass [OF ne sh d, unfolded K]
  show "visibleIds (processedPosts (applyRankedFiltering s)) =
            set (take 20 (map fst (sortDescending
              (similaritiesOf (last (filters s)) (processedPosts s)))))"
    by (rule sp)
  show c: "visibleCount (processedPosts (applyRankedFiltering s)) =
            min 20 (length (processedPosts s))"
    by (rule sp)
  assume "processedPosts s \<noteq> []"
  then show "0 < visibleCount (processedPosts (applyRankedFiltering s))"
    by (simp add: c)
qed

theorem C10_topK_zero_is_20_witness:
  "filters \<lparr>filters = [\<lparr>query = ''x'', mode = Show, topK = 0, threshold = 0.5,
                         queryVec = buildQueryVector ''x''\<rparr>],
            processedPosts = [(''1'', \<lparr>pd_text = ''x y'', hidden = True\<rparr>),
                              (''2'', \<lparr>pd_text = ''z'', hidden = False\<rparr>)],
            postBatch = [], stats_processed = 2, stats_hidden = 1,
            enabled = True, batchTimeout = False\<rparr> \<noteq> []
   \<and> visibleCount (processedPosts (applyRankedFiltering
          \<lparr>filters = [\<lparr>query = ''x'', mode = Show, topK = 0, threshold = 0.5,
                         queryVec = buildQueryVector ''x''\<rparr>],
            processedPosts = [(''1'', \<lparr>pd_text = ''x y'', hidden = True\<rparr>),
                              (''2'', \<lparr>pd_text = ''z'', hidden = False\<rparr>)],
            postBatch = [], stats_processed = 2, stats_hidden = 1,
            enabled = True, batchTimeout = False\<rparr>)) = 2"
proof -
  let ?s = "\<lparr>filters = [\<lparr>query = ''x'', mode = Show, topK = 0, threshold = 0.5,
                         queryVec = buildQueryVector ''x''\<rparr>],
            processedPosts = [(''1'', \<lparr>pd_text = ''x y'', hidden = True\<rparr>),
                              (''2'', \<lparr>pd_text = ''z'', hidden = False\<rparr>)],
            postBatch = [], stats_processed = 2, stats_hidden = 1,
            enabled = True, batchTimeout = False\<rparr>"
  have h: "filters ?s \<noteq> [] \<and> mode (last (filters ?s)) = Show \<and> topK (last (filters ?s)) = 0
        \<and> distinct (map fst (processedPosts ?s))"
    by simp
  from C10_topK_zero_is_20 [of _ _ ?s] h
  have "visibleCount (processedPosts (applyRankedFiltering ?s)) = min 20 (length (processedPosts ?s))"
    by blast
  with h show ?thesis by simp
qed

section \<open>Batching: the claims\<close>

lemma keys_mapSet: "fst ` set (mapSet m k v) = insert k (fst ` set m)"
proof (induction m)
  case Nil
  show ?case by simp
next
  case (Cons e m)
  obtain a b where e: "e = (a, b)" by (cases e)
  show ?case
  proof (cases "a = k")
    case True
    then show ?thesis by (simp add: e)
  next
    case False
    then show ?thesis by (simp add: e Cons.IH insert_commute)
  qed
qed

lemma distinct_mapSet: "distinct (map fst m) \<Longrightarrow> distinct (map fst (mapSet m k v))"
proof (induction m)
  case Nil
  show ?case by simp
next
  case (Cons e m)
  obtain a b where e: "e = (a, b)" by (cases e)
  show ?case
  proof (cases "a = k")
    case True
    with Cons.prems show ?thesis by (simp add: e)
  next
    case False
    with Cons show ?thesis by (simp add: e keys_mapSet)
  qed
qed

lemma postBatch_cache_fold: "postBatch (foldl cachePost s ps) = postBatch s"
  by (induction ps arbitrary: s) (simp_all add: cachePost_def)

lemma stats_cache_fold: "stats_processed (foldl cachePost s ps) = stats_processed s + length ps"
  by (induction ps arbitrary: s) (simp_all add: cachePost_def)

lemma filters_cache_fold: "filters (foldl cachePost s ps) = filters s"
  by (induction ps arbitrary: s) (simp_all add: cachePost_def)

lemma keys_cache_fold:
  "fst ` set (processedPosts (foldl cachePost s ps)) =
     fst ` set (processedPosts s) \<union> post_id ` set ps"
proof (induction ps arbitrary: s)
  case Nil
  show ?case by simp
next
  case (Cons p ps)
  have "fst ` set (processedPosts (foldl cachePost s (p # ps))) =
      fst ` set (processedPosts (cachePost s p)) \<union> post_id ` set ps"
    by (simp add: Cons.IH)
  also have "fst ` set (processedPosts (cachePost s p)) = insert (post_id p) (fst ` set (processedPosts s))"
    by (simp add: cachePost_def keys_mapSet)
  finally show ?case by auto
qed

lemma distinct_cache_fold:
  "distinct (map fst (processedPosts s)) \<Longrightarrow>
   distinct (map fst (processedPosts (foldl cachePost s ps)))"
  by (induction ps arbitrary: s) (simp_all add: cachePost_def distinct_mapSet)

lemma postBatch_applyRankedFiltering: "postBatch (applyRankedFiltering s) = postBatch s"
  by (simp add: applyRankedFiltering_def Let_def)

lemma stats_applyRankedFiltering: "stats_processed (applyRankedFiltering s) = stats_processed s"
  by (simp add: applyRankedFiltering_def Let_def)

lemma keys_applyRankedFiltering:
  "map fst (processedPosts (applyRankedFiltering s)) = map fst (processedPosts s)"
  by (simp add: applyRankedFiltering_def Let_def keys_pass case_prod_unfold comp_def)

lemma postBatch_processBatch: "postBatch (processBatch s) = drop batchSize (postBatch s)"
  by (simp add: processBatch_def Let_def postBatch_applyRankedFiltering postBatch_cache_fold)

lemma keys_processBatch:
  "set (map fst (processedPosts (processBatch s))) =
     set (map fst (processedPosts s)) \<union> post_id ` set (take batchSize (postBatch s))"
proof (cases "postBatch s = []")
  case True
  then show ?thesis by (simp add: processBatch_def)
next
  case False
  let ?s1 = "foldl cachePost (s\<lparr>postBatch := drop batchSize (postBatch s)\<rparr>)
      (take batchSize (postBatch s))"
  have "set (map fst (processedPosts (processBatch s))) =
      set (map fst (processedPosts (applyRankedFiltering ?s1)))"
    using False by (simp add: processBatch_def Let_def)
  also have "\<dots> = set (map fst (processedPosts ?s1))"
    by (simp only: keys_applyRankedFiltering)
  also have "\<dots> = fst ` set (processedPosts ?s1)" by simp
  also have "\<dots> = fst ` set (processedPosts s) \<union> post_id ` set (take batchSize (postBatch s))"
    by (simp only: keys_cache_fold) simp
  finally show ?thesis by simp
qed

lemma stats_processBatch:
  "stats_processed (processBatch s) = stats_processed s + min batchSize (length (postBatch s))"
  by (simp add: processBatch_def Let_def stats_applyRankedFiltering stats_cache_fold min.commute)

lemma distinct_processBatch:
  "distinct (map fst (processedPosts s)) \<Longrightarrow> distinct (map fst (processedPosts (processBatch s)))"
  by (simp add: processBatch_def Let_def keys_applyRankedFiltering distinct_cache_fold)

lemma processPostData_size_trigger:
  assumes "filter (\<lambda>p. \<not> mapHas (processedPosts s) (post_id p)) posts \<noteq> []"
    and "batchSize \<le> length (postBatch s @ filter (\<lambda>p. \<not> mapHas (processedPosts s) (post_id p)) posts)"
  shows "processPostData s posts =
     processBatch (s\<lparr>postBatch := postBatch s @ filter (\<lambda>p. \<not> mapHas (processedPosts s) (post_id p)) posts\<rparr>)"
proof -
  from assms(1) have "posts \<noteq> []" by auto
  with assms show ?thesis by (simp add: processPostData_def Let_def)
qed

lemma numberedPosts_ids: "post_id ` set (numberedPosts n) = (\<lambda>i. replicate i CHR ''7'') ` {1..n}"
proof (induction n)
  case 0
  show ?case by simp
next
  case (Suc n)
  have "{1..Suc n} = insert (Suc n) {1..n}" by auto
  with Suc show ?case by (simp add: image_Un)
qed

lemma length_numberedPosts: "length (numberedPosts n) = n"
  by (induction n) simp_all

lemma filter_unknown_Nil: "filter (\<lambda>p. \<not> mapHas [] (post_id p)) ps = ps"
  by (simp add: mapHas_def)

text \<open>
  Claim C5, as stated: one response brings 31 new posts, the buffer reaches the batch
  size and the pass runs at once. It takes 30 posts: the 31st, in the buffer when the
  pass was triggered, is still in the buffer afterwards and is not among the known posts.
\<close>

theorem C5_counterexample_31_posts:
  "length (numberedPosts 31) = 31
   \<and> postBatch (processPostData initialState (numberedPosts 31)) =
       [\<lparr>post_id = replicate 31 CHR ''7'', post_text = ''post''\<rparr>]
   \<and> \<not> mapHas (processedPosts (processPostData initialState (numberedPosts 31)))
         (replicate 31 CHR ''7'')"
proof -
  have n31: "numberedPosts 31 = numberedPosts 30 @ [\<lparr>post_id = replicate 31 CHR ''7'', post_text = ''post''\<rparr>]"
    using numberedPosts.simps(2) [of 30] by simp
  have new: "filter (\<lambda>p. \<not> mapHas (processedPosts initialState) (post_id p)) (numberedPosts 31)
      = numberedPosts 31"
    by (simp add: initialState_def filter_unknown_Nil)
  have ne: "numberedPosts 31 \<noteq> []" by (simp add: n31)
  have run: "processPostData initialState (numberedPosts 31) =
      processBatch (initialState\<lparr>postBatch := numberedPosts 31\<rparr>)"
    using processPostData_size_trigger [of initialState "numberedPosts 31"] ne
    by (simp add: new length_numberedPosts batchSize_def) (simp add: initialState_def)
  have "postBatch (processPostData initialState (numberedPosts 31)) =
      drop 30 (numberedPosts 31)"
    by (simp only: run postBatch_processBatch) (simp add: batchSize_def)
  then have buf: "postBatch (processPostData initialState (numberedPosts 31)) =
       [\<lparr>post_id = replicate 31 CHR ''7'', post_text = ''post''\<rparr>]"
    by (simp add: n31 length_numberedPosts)
  have "set (map fst (processedPosts (processPostData initialState (numberedPosts 31)))) =
      set (map fst (processedPosts (initialState\<lparr>postBatch := numberedPosts 31\<rparr>)))
      \<union> post_id ` set (take batchSize (postBatch (initialState\<lparr>postBatch := numberedPosts 31\<rparr>)))"
    by (simp only: run keys_processBatch)
  also have "\<dots> = post_id ` set (take 30 (numberedPosts 31))"
    by (simp add: initialState_def batchSize_def)
  also have "\<dots> = post_id ` set (numberedPosts 30)"
    by (simp add: n31 length_numberedPosts)
  also have "\<dots> = (\<lambda>i. replicate i CHR ''7'') ` {1..30}" by (rule numberedPosts_ids)
  finally have keys: "set (map fst (processedPosts (processPostData initialState (numberedPosts 31))))
      = (\<lambda>i. replicate i CHR ''7'') ` {1..30}" .
  have "replicate 31 CHR ''7'' \<notin> (\<lambda>i. replicate i CHR ''7'') ` {1..30}"
  proof
    assume "replicate 31 CHR ''7'' \<in> (\<lambda>i. replicate i CHR ''7'') ` {1..30}"
    then obtain i where "i \<in> {1..30::nat}" and "replicate 31 CHR ''7'' = replicate i CHR ''7''"
      by auto
    then have "length (replicate (31::nat) CHR ''7'') = length (replicate i CHR ''7'')" and "i \<le> 30"
      by simp_all
    then show False by simp
  qed
  then have "\<not> mapHas (processedPosts (processPostData initialState (numberedPosts 31)))
         (replicate 31 CHR ''7'')"
    unfolding mapHas_def keys .
  with buf show ?thesis by (simp add: length_numberedPosts)
qed

text \<open>
  Claim C5, amended. A pass, whether the batch size or the timer triggers it, takes the
  first 30 posts of the buffer, all of them when there are at most 30, makes them known
  posts, and leaves the others in the buffer.
\<close>

theorem C5_pass_takes_first_batch:
  "postBatch (processBatch s) = drop batchSize (postBatch s)
   \<and> set (map fst (processedPosts (processBatch s))) =
       set (map fst (processedPosts s)) \<union> post_id ` set (take batchSize (postBatch s))
   \<and> stats_processed (processBatch s) = stats_processed s + min batchSize (length (postBatch s))
   \<and> (length (postBatch s) \<le> batchSize \<longrightarrow> postBatch (processBatch s) = [])
   \<and> postBatch (onBatchTimeout s) = drop batchSize (postBatch s)
   \<and> (filter (\<lambda>p. \<not> mapHas (processedPosts s) (post_id p)) posts \<noteq> []
        \<and> batchSize \<le> length (postBatch s @ filter (\<lambda>p. \<not> mapHas (processedPosts s) (post_id p)) posts)
      \<longrightarrow> postBatch (processPostData s posts) =
            drop batchSize (postBatch s @ filter (\<lambda>p. \<not> mapHas (processedPosts s) (post_id p)) posts))"
proof (intro conjI impI)
  show "postBatch (processBatch s) = drop batchSize (postBatch s)"
    by (rule postBatch_processBatch)
  show "set (map fst (processedPosts (processBatch s))) =
       set (map fst (processedPosts s)) \<union> post_id ` set (take batchSize (postBatch s))"
    by (rule keys_processBatch)
  show "stats_processed (processBatch s) = stats_processed s + min batchSize (length (postBatch s))"
    by (rule stats_processBatch)
  show "postBatch (onBatchTimeout s) = drop batchSize (postBatch s)"
    by (simp add: onBatchTimeout_def postBatch_processBatch)
next
  assume "length (postBatch s) \<le> batchSize"
  then show "postBatch (processBatch s) = []"
    by (simp add: postBatch_processBatch)
next
  assume "filter (\<lambda>p. \<not> mapHas (processedPosts s) (post_id p)) posts \<noteq> []
        \<and> batchSize \<le> length (postBatch s @ filter (\<lambda>p. \<not> mapHas (processedPosts s) (post_id p)) posts)"
  then have a: "filter (\<lambda>p. \<not> mapHas (processedPosts s) (post_id p)) posts \<noteq> []"
    and b: "batchSize \<le> length (postBatch s @ filter (\<lambda>p. \<not> mapHas (processedPosts s) (post_id p)) posts)"
    by simp_all
  show "postBatch (processPostData s posts) =
            drop batchSize (postBatch s @ filter (\<lambda>p. \<not> mapHas (processedPosts s) (post_id p)) posts)"
    by (simp only: processPostData_size_trigger [OF a b] postBatch_processBatch) simp
qed

theorem C5_pass_takes_first_batch_witness:
  "length (postBatch (initialState\<lparr>postBatch := numberedPosts 2\<rparr>)) \<le> batchSize
   \<and> postBatch (processBatch (initialState\<lparr>postBatch := numberedPosts 2\<rparr>)) = []
   \<and> filter (\<lambda>p. \<not> mapHas (processedPosts initialState) (post_id p)) (numberedPosts 31) \<noteq> []
   \<and> batchSize \<le> length (postBatch initialState
        @ filter (\<lambda>p. \<not> mapHas (processedPosts initialState) (post_id p)) (numberedPosts 31))
   \<and> postBatch (processPostData initialState (numberedPosts 31)) =
       drop batchSize (postBatch initialState
        @ filter (\<lambda>p. \<not> mapHas (processedPosts initialState) (post_id p)) (numberedPosts 31))"
proof -
  have h1: "length (postBatch (initialState\<lparr>postBatch := numberedPosts 2\<rparr>)) \<le> batchSize"
    by (simp add: length_numberedPosts batchSize_def)
  have new: "filter (\<lambda>p. \<not> mapHas (processedPosts initialState) (post_id p)) (numberedPosts 31)
      = numberedPosts 31"
    by (simp add: initialState_def filter_unknown_Nil)
  have h2: "filter (\<lambda>p. \<not> mapHas (processedPosts initialState) (post_id p)) (numberedPosts 31) \<noteq> []"
    unfolding new using length_numberedPosts [of 31] by auto
  have h3: "batchSize \<le> length (postBatch initialState
        @ filter (\<lambda>p. \<not> mapHas (processedPosts initialState) (post_id p)) (numberedPosts 31))"
    unfolding new by (simp add: length_numberedPosts batchSize_def)
  from C5_pass_takes_first_batch [of "initialState\<lparr>postBatch := numberedPosts 2\<rparr>"] h1
  have 1: "postBatch (processBatch (initialState\<lparr>postBatch := numberedPosts 2\<rparr>)) = []"
    by blast
  from C5_pass_takes_first_batch [of initialState "numberedPosts 31"] h2 h3
  have 2: "postBatch (processPostData initialState (numberedPosts 31)) =
       drop batchSize (postBatch initialState
        @ filter (\<lambda>p. \<not> mapHas (processedPosts initialState) (post_id p)) (numberedPosts 31))"
    by blast
  from h1 h2 h3 1 2 show ?thesis by blast
qed

end
